theory Spec2Isabelle
  imports Complex_Main "HOL-Library.Multiset"
begin

section \<open>Data model\<close>

text \<open>
  The types of \<open>types.ts\<close> that the route planner and the safety map use.  A JavaScript
  string is a sequence of UTF-16 code units; a code unit is a natural number here.  Node
  ids and in-degrees are JavaScript numbers that hold integers and are modelled as
  \<open>int\<close>; minutes and coordinates are modelled as \<open>real\<close>, so the rounding of
  floating-point arithmetic is left out.  An optional field is an \<open>option\<close>.  The
  fields \<open>id\<close>, \<open>name\<close>, \<open>description\<close>, \<open>type\<close>, \<open>from\<close> and \<open>to\<close> carry
  a suffix, since records of two types share them or the names are taken.
\<close>

type_synonym jsstring = "nat list"

datatype NodeType = FOOD | SCENERY | HOTEL | OTHER

datatype TransportMode = WALK | TAXI | BUS | SUBWAY

record RouteNode =
  id_n :: int
  name_n :: jsstring
  description_n :: jsstring
  type_n :: NodeType
  estimatedStay :: "jsstring option"

record RouteEdge =
  from_e :: int
  to_e :: int
  transportMode :: TransportMode
  duration :: jsstring
  distance :: jsstring
  details :: "jsstring option"

section \<open>Graph orderer: \<open>reorderNodes\<close>\<close>

text \<open>
  \<open>reorderNodes\<close> of \<open>SmartRoute.tsx\<close>: Kahn's algorithm over the ids, with a
  restart from the first unvisited node when the queue runs empty.  The maps
  \<open>nodeById\<close>, \<open>adjacency\<close> and \<open>inDegree\<close> are partial functions, the set
  \<open>visited\<close> is a set of ids, the queue and \<open>sortedNodes\<close> are lists.
\<close>

text \<open>\<open>new Map(originalNodes.map(n => [n.id, n]))\<close>: a later entry replaces an earlier one.\<close>

definition nodeById :: "RouteNode list \<Rightarrow> (int \<rightharpoonup> RouteNode)" where
  "nodeById ns = foldl (\<lambda>m n. m(id_n n \<mapsto> n)) Map.empty ns"

text \<open>\<open>inDegree.get(k) || 0\<close>: a missing key and a stored zero both read as zero.\<close>

definition getDeg :: "(int \<rightharpoonup> int) \<Rightarrow> int \<Rightarrow> int" where
  "getDeg m k = (case m k of None \<Rightarrow> 0 | Some d \<Rightarrow> d)"

text \<open>\<open>originalNodes.forEach(n => inDegree.set(n.id, 0))\<close>\<close>

definition initDegree :: "RouteNode list \<Rightarrow> (int \<rightharpoonup> int)" where
  "initDegree ns = foldl (\<lambda>m n. m(id_n n \<mapsto> 0)) Map.empty ns"

text \<open>The body of \<open>edges.forEach\<close> that builds the adjacency lists and the in-degrees.\<close>

definition addEdge ::
  "(int \<rightharpoonup> int list) \<times> (int \<rightharpoonup> int) \<Rightarrow> RouteEdge \<Rightarrow> (int \<rightharpoonup> int list) \<times> (int \<rightharpoonup> int)" where
  "addEdge g e =
     (let adj = fst g; deg = snd g;
          adj1 = (if adj (from_e e) = None then adj(from_e e \<mapsto> []) else adj);
          adj2 = (case adj1 (from_e e) of
                    None \<Rightarrow> adj1
                  | Some l \<Rightarrow> adj1(from_e e \<mapsto> l @ [to_e e]))
      in (adj2, deg(to_e e \<mapsto> getDeg deg (to_e e) + 1)))"

definition buildGraph ::
  "RouteNode list \<Rightarrow> RouteEdge list \<Rightarrow> (int \<rightharpoonup> int list) \<times> (int \<rightharpoonup> int)" where
  "buildGraph ns es = foldl addEdge (Map.empty, initDegree ns) es"

text \<open>\<open>adjacency.get(currentId) || []\<close> (an array, even empty, is truthy).\<close>

definition neighbors :: "(int \<rightharpoonup> int list) \<Rightarrow> int \<Rightarrow> int list" where
  "neighbors adj k = (case adj k of None \<Rightarrow> [] | Some l \<Rightarrow> l)"

text \<open>The body of \<open>neighbors.forEach\<close>: decrement, store, enqueue on reaching zero.\<close>

definition decNeighbor :: "(int \<rightharpoonup> int) \<times> int list \<Rightarrow> int \<Rightarrow> (int \<rightharpoonup> int) \<times> int list" where
  "decNeighbor dq neighborId =
     (let d = getDeg (fst dq) neighborId - 1
      in ((fst dq)(neighborId \<mapsto> d), if d = 0 then snd dq @ [neighborId] else snd dq))"

text \<open>The start nodes: ids of the nodes whose in-degree reads zero, in input order.\<close>

definition rootQueue :: "RouteNode list \<Rightarrow> (int \<rightharpoonup> int) \<Rightarrow> int list" where
  "rootQueue ns deg = map id_n (filter (\<lambda>n. getDeg deg (id_n n) = 0) ns)"

text \<open>
  The head of a loop iteration: when the queue is empty the first node whose id is not
  visited is pushed (\<open>None\<close> stands for \<open>break\<close> when there is none); then
  \<open>queue.shift()\<close> yields the current id and the remaining queue.
\<close>

definition nextId :: "RouteNode list \<Rightarrow> int set \<Rightarrow> int list \<Rightarrow> (int \<times> int list) option" where
  "nextId ns vis q =
     (case q of
        [] \<Rightarrow> (case find (\<lambda>n. id_n n \<notin> vis) ns of
                 None \<Rightarrow> None
               | Some unvisited \<Rightarrow> Some (id_n unvisited, []))
      | currentId # rest \<Rightarrow> Some (currentId, rest))"

text \<open>\<open>const node = nodeById.get(currentId); if (node) sortedNodes.push(node)\<close>\<close>

definition emit :: "RouteNode list \<Rightarrow> int \<Rightarrow> RouteNode list \<Rightarrow> RouteNode list" where
  "emit ns currentId sortedNodes =
     (case nodeById ns currentId of None \<Rightarrow> sortedNodes | Some node \<Rightarrow> sortedNodes @ [node])"

text \<open>Every id the loop can ever hold: node ids and edge endpoints.\<close>

definition idUniverse :: "RouteNode list \<Rightarrow> RouteEdge list \<Rightarrow> int set" where
  "idUniverse ns es = id_n ` set ns \<union> from_e ` set es \<union> to_e ` set es"

lemma finite_idUniverse: "finite (idUniverse ns es)"
  by (simp add: idUniverse_def)

lemma adjacency_foldl_other:
  "k \<notin> from_e ` set es \<Longrightarrow> fst (foldl addEdge (adj, deg) es) k = adj k"
  by (induction es arbitrary: adj deg) (auto simp: addEdge_def Let_def split: option.splits)

lemma neighbors_outside:
  "k \<notin> from_e ` set es \<Longrightarrow> neighbors (fst (buildGraph ns es)) k = []"
  by (simp add: neighbors_def buildGraph_def adjacency_foldl_other)

lemma nextId_SomeD:
  assumes "nextId ns vis q = Some (c, rest)"
  shows "q = c # rest \<or> (q = [] \<and> rest = [] \<and> c \<notin> vis \<and> c \<in> id_n ` set ns)"
proof (cases q)
  case Nil
  with assms obtain u where u: "find (\<lambda>n. id_n n \<notin> vis) ns = Some u" "c = id_n u" "rest = []"
    by (auto simp: nextId_def split: option.splits)
  from u(1) have "u \<in> set ns" "id_n u \<notin> vis"
    by (auto simp: find_Some_iff)
  with u Nil show ?thesis by auto
next
  case (Cons a l)
  with assms show ?thesis by (simp add: nextId_def)
qed

lemma card_universe_visit:
  assumes "c \<in> idUniverse ns es" "c \<notin> vis"
  shows "card (idUniverse ns es - insert c vis) < card (idUniverse ns es - vis)"
proof (rule psubset_card_mono)
  show "finite (idUniverse ns es - vis)" by (simp add: finite_idUniverse)
  show "idUniverse ns es - insert c vis \<subset> idUniverse ns es - vis" using assms by auto
qed

text \<open>
  The \<open>while\<close> loop.  Its state is \<open>inDegree\<close>, \<open>visited\<close>, \<open>queue\<close> and
  \<open>sortedNodes\<close>; the node list and the edge list (for \<open>nodeById\<close> and
  \<open>adjacency\<close>, which the loop only reads) are parameters.  The loop ends when all
  nodes are emitted or by \<open>break\<close>; an id that is already visited is dropped
  (\<open>continue\<close>).
\<close>

function reorderLoop ::
  "RouteNode list \<Rightarrow> RouteEdge list \<Rightarrow> (int \<rightharpoonup> int) \<Rightarrow> int set \<Rightarrow> int list \<Rightarrow> RouteNode list
     \<Rightarrow> RouteNode list" where
  "reorderLoop ns es deg vis q sortedNodes =
     (if length sortedNodes < length ns then
        (case nextId ns vis q of
           None \<Rightarrow> sortedNodes
         | Some (currentId, rest) \<Rightarrow>
             if currentId \<in> vis then reorderLoop ns es deg vis rest sortedNodes
             else
               (let dq = foldl decNeighbor (deg, rest)
                           (neighbors (fst (buildGraph ns es)) currentId)
                in reorderLoop ns es (fst dq) (insert currentId vis) (snd dq)
                     (emit ns currentId sortedNodes)))
      else sortedNodes)"
  by pat_completeness auto

lemma visit_decreases:
  assumes nx: "nextId ns vis q = Some (c, rest)" and c: "c \<notin> vis"
    and dq: "dq = foldl decNeighbor (deg, rest) (neighbors (fst (buildGraph ns es)) c)"
  shows "card (idUniverse ns es - insert c vis) < card (idUniverse ns es - vis) \<or>
         (card (idUniverse ns es - insert c vis) = card (idUniverse ns es - vis) \<and>
          length (snd dq) < length q)"
proof (cases "c \<in> idUniverse ns es")
  case True
  from card_universe_visit[OF True c] show ?thesis ..
next
  case False
  then have nb: "neighbors (fst (buildGraph ns es)) c = []"
    by (simp add: idUniverse_def neighbors_outside)
  from False have same: "idUniverse ns es - insert c vis = idUniverse ns es - vis"
    by auto
  from nextId_SomeD[OF nx] False have "q = c # rest"
    by (auto simp: idUniverse_def)
  with nb same dq show ?thesis by simp
qed

lemma skip_decreases:
  "nextId ns vis q = Some (c, rest) \<Longrightarrow> c \<in> vis \<Longrightarrow> length rest < length q"
  by (auto dest!: nextId_SomeD)

text \<open>
  Termination: a visit removes an id from the unvisited part of the universe, or, for an
  id outside the universe, shortens the queue; a dropped id shortens the queue.
\<close>

lemma reorderLoop_total: "All reorderLoop_dom"
  apply (relation "measures [\<lambda>(ns, es, deg, vis, q, sortedNodes). card (idUniverse ns es - vis),
                          \<lambda>(ns, es, deg, vis, q, sortedNodes). length q]")
    apply simp
   apply (auto dest: skip_decreases)[1]
  apply (auto dest: visit_decreases)
  done

termination reorderLoop
  by (rule reorderLoop_total)

declare reorderLoop.simps [simp del]

text \<open>The whole of \<open>reorderNodes\<close>.\<close>

definition reorderNodes :: "RouteNode list \<Rightarrow> RouteEdge list \<Rightarrow> RouteNode list" where
  "reorderNodes originalNodes edges =
     (let inDegree = snd (buildGraph originalNodes edges)
      in reorderLoop originalNodes edges inDegree {} (rootQueue originalNodes inDegree) [])"

section \<open>Timeline estimator\<close>

text \<open>
  \<open>parseDurationToMinutes\<close>, \<open>formatTime\<close> and the \<open>nodeTimeline\<close> memo of
  \<open>SmartRoute.tsx\<close>.  The ASCII digits are the code units 48 to 57, the dot is 46, the
  colon is 58.
\<close>

definition isDigit :: "nat \<Rightarrow> bool" where
  "isDigit c \<longleftrightarrow> 48 \<le> c \<and> c \<le> 57"

definition digitRun :: "jsstring \<Rightarrow> nat" where
  "digitRun s = length (takeWhile isDigit s)"

definition startsWith :: "jsstring \<Rightarrow> jsstring \<Rightarrow> bool" where
  "startsWith p s \<longleftrightarrow> take (length p) s = p"

text \<open>
  The literals after the digits in the two regular expressions, and the default stay, as
  the source file holds them.  They are not the characters U+5C0F U+65F6 (hour) and
  U+5206 (minute), U+949F of the duration strings in \<open>types.ts\<close> and
  \<open>geminiService.ts\<close>, but what those characters become when their UTF-8 bytes are
  read as Windows-1252.
\<close>

definition hourMarker :: jsstring where
  "hourMarker = [0xE5, 0xB0, 0xE6, 0x2014, 0xB6]"

definition minMarker :: jsstring where
  "minMarker = [0xE5, 0x2C6, 0x2020]"

definition defaultStay :: jsstring where
  "defaultStay = [51, 48, 0xE5, 0x2C6, 0x2020, 0xE9, 0x2019, 0x178]"

text \<open>
  \<open>str.match(/(\d+(\.\d+)?)H/)\<close> for a literal \<open>H\<close>: the leftmost match, found by
  backtracking.  At a start position the first \<open>\d+\<close> takes \<open>k\<close> digits, the longest
  run first; then the optional group is tried with its \<open>\d+\<close> taking \<open>j\<close> digits,
  the longest run first, then without the group; the literal must follow.  The result is
  the text of the first group.
\<close>

fun tryFrac :: "jsstring \<Rightarrow> jsstring \<Rightarrow> nat \<Rightarrow> nat option" where
  "tryFrac marker t 0 = None"
| "tryFrac marker t (Suc j) =
     (if startsWith marker (drop (Suc j) t) then Some (Suc j) else tryFrac marker t j)"

fun tryHourAt :: "jsstring \<Rightarrow> jsstring \<Rightarrow> nat \<Rightarrow> jsstring option" where
  "tryHourAt marker s 0 = None"
| "tryHourAt marker s (Suc k) =
     (let rest = drop (Suc k) s;
          frac = (case rest of
                    [] \<Rightarrow> None
                  | c # t \<Rightarrow> if c = 46 then tryFrac marker t (digitRun t) else None)
      in case frac of
           Some j \<Rightarrow> Some (take (Suc k + 1 + j) s)
         | None \<Rightarrow> if startsWith marker rest then Some (take (Suc k) s)
                   else tryHourAt marker s k)"

fun matchHour :: "jsstring \<Rightarrow> jsstring \<Rightarrow> jsstring option" where
  "matchHour marker [] = None"
| "matchHour marker (c # cs) =
     (case tryHourAt marker (c # cs) (digitRun (c # cs)) of
        Some cap \<Rightarrow> Some cap
      | None \<Rightarrow> matchHour marker cs)"

text \<open>\<open>str.match(/(\d+)M/)\<close> for a literal \<open>M\<close>, in the same way.\<close>

fun tryMinAt :: "jsstring \<Rightarrow> jsstring \<Rightarrow> nat \<Rightarrow> jsstring option" where
  "tryMinAt marker s 0 = None"
| "tryMinAt marker s (Suc k) =
     (if startsWith marker (drop (Suc k) s) then Some (take (Suc k) s)
      else tryMinAt marker s k)"

fun matchMin :: "jsstring \<Rightarrow> jsstring \<Rightarrow> jsstring option" where
  "matchMin marker [] = None"
| "matchMin marker (c # cs) =
     (case tryMinAt marker (c # cs) (digitRun (c # cs)) of
        Some cap \<Rightarrow> Some cap
      | None \<Rightarrow> matchMin marker cs)"

text \<open>
  \<open>parseInt\<close> of a string of digits and \<open>parseFloat\<close> of digits with an optional
  fraction, as exact numbers.
\<close>

definition parseInt :: "jsstring \<Rightarrow> nat" where
  "parseInt ds = foldl (\<lambda>a c. 10 * a + (c - 48)) 0 ds"

definition parseFloat :: "jsstring \<Rightarrow> real" where
  "parseFloat cap =
     (let ip = takeWhile isDigit cap; fp = drop (Suc (length ip)) cap
      in of_nat (parseInt ip) + of_nat (parseInt fp) / 10 ^ length fp)"

definition allDigits :: "jsstring \<Rightarrow> bool" where
  "allDigits s \<longleftrightarrow> s \<noteq> [] \<and> list_all isDigit s"

text \<open>
  The parser, with the two literals as parameters: \<open>None\<close> is \<open>undefined\<close>, which
  like the empty string is falsy.  \<open>allDigits\<close> is \<open>str.match(/^\d+$/)\<close>.
\<close>

definition parseDurationWith :: "jsstring \<Rightarrow> jsstring \<Rightarrow> jsstring option \<Rightarrow> real" where
  "parseDurationWith hm mm str =
     (case str of
        None \<Rightarrow> 0
      | Some s \<Rightarrow>
          if s = [] then 0
          else
            (let minutes0 = 0;
                 minutes1 = (case matchHour hm s of
                               None \<Rightarrow> minutes0
                             | Some cap \<Rightarrow> minutes0 + parseFloat cap * 60);
                 minutes2 = (case matchMin mm s of
                               None \<Rightarrow> minutes1
                             | Some cap \<Rightarrow> minutes1 + of_nat (parseInt cap))
             in if minutes2 = 0 \<and> allDigits s then of_nat (parseInt s) else minutes2))"

definition parseDurationToMinutes :: "jsstring option \<Rightarrow> real" where
  "parseDurationToMinutes str = parseDurationWith hourMarker minMarker str"

text \<open>
  \<open>formatTime\<close>: \<open>n.toString()\<close> and \<open>padStart(2, '0')\<close> for a non-negative
  integer; \<open>%\<close> on a non-negative number.  The clock never goes below its start.
\<close>

fun digitsOf :: "nat \<Rightarrow> jsstring" where
  "digitsOf n = (if n < 10 then [48 + n] else digitsOf (n div 10) @ [48 + n mod 10])"

declare digitsOf.simps [simp del]

definition padStart2 :: "jsstring \<Rightarrow> jsstring" where
  "padStart2 s = replicate (2 - length s) 48 @ s"

definition formatTime :: "real \<Rightarrow> jsstring" where
  "formatTime minutesFromMidnight =
     (let h = nat (\<lfloor>minutesFromMidnight / 60\<rfloor> mod 24);
          m = nat \<lfloor>minutesFromMidnight - 60 * of_int \<lfloor>minutesFromMidnight / 60\<rfloor>\<rfloor>
      in padStart2 (digitsOf h) @ [58] @ padStart2 (digitsOf m))"

record RoutePlan =
  title :: jsstring
  nodes :: "RouteNode list"
  edges :: "RouteEdge list"

record TimeInfo =
  arrival :: jsstring
  departure :: jsstring

text \<open>
  The body of \<open>sortedNodes.forEach((node, i) => ...)\<close>: the travel time to the node at
  index \<open>i\<close>, its stay, and the step that advances \<open>currentMinutes\<close> and records the
  two labels.  \<open>node.estimatedStay || default\<close> takes the default for an absent and for
  an empty string.
\<close>

definition travelTime :: "RouteEdge list \<Rightarrow> RouteNode list \<Rightarrow> nat \<Rightarrow> real" where
  "travelTime es sortedNodes i =
     (if i > 0 then
        (let prevNode = sortedNodes ! (i - 1); node = sortedNodes ! i
         in case find (\<lambda>e. from_e e = id_n prevNode \<and> to_e e = id_n node) es of
              Some edge \<Rightarrow> parseDurationToMinutes (Some (duration edge))
            | None \<Rightarrow> 15)
      else 0)"

definition stayDuration :: "RouteNode \<Rightarrow> real" where
  "stayDuration node =
     parseDurationToMinutes
       (Some (case estimatedStay node of
                None \<Rightarrow> defaultStay
              | Some s \<Rightarrow> if s = [] then defaultStay else s))"

definition timelineStep ::
  "RouteEdge list \<Rightarrow> RouteNode list \<Rightarrow> real \<times> (int \<rightharpoonup> TimeInfo) \<Rightarrow> nat
     \<Rightarrow> real \<times> (int \<rightharpoonup> TimeInfo)" where
  "timelineStep es sortedNodes st i =
     (let node = sortedNodes ! i;
          currentMinutes1 = fst st + travelTime es sortedNodes i;
          arrival = formatTime currentMinutes1;
          currentMinutes2 = currentMinutes1 + stayDuration node;
          departure = formatTime currentMinutes2
      in (currentMinutes2, (snd st)(id_n node \<mapsto> \<lparr>arrival = arrival, departure = departure\<rparr>)))"

text \<open>
  The loop over all indices from a start clock, and the memo itself, which starts at
  9 * 60 on the reordered nodes of the plan.
\<close>

definition computeTimeline ::
  "RouteNode list \<Rightarrow> RouteEdge list \<Rightarrow> real \<Rightarrow> (int \<rightharpoonup> TimeInfo)" where
  "computeTimeline sortedNodes es startMinutes =
     snd (foldl (timelineStep es sortedNodes) (startMinutes, Map.empty) [0..<length sortedNodes])"

definition nodeTimeline :: "RoutePlan option \<Rightarrow> (int \<rightharpoonup> TimeInfo)" where
  "nodeTimeline routePlan =
     (case routePlan of
        None \<Rightarrow> Map.empty
      | Some plan \<Rightarrow> computeTimeline (reorderNodes (nodes plan) (edges plan)) (edges plan) (9 * 60))"

section \<open>Spatial clusterer\<close>

text \<open>
  The \<open>mapItems\<close> memo of \<open>SafetyMap.tsx\<close>.  Coordinates are real numbers, and the
  distance is the real square root.
\<close>

datatype ZoneType = RED | GREEN

record MapZone =
  id_z :: jsstring
  city :: jsstring
  name_z :: jsstring
  type_z :: ZoneType
  description_z :: jsstring
  coordinates :: "real \<times> real"
  isUserGenerated :: "bool option"

datatype MapItem =
  Single MapZone
| Cluster "MapZone list" real real jsstring

definition CLUSTER_THRESHOLD :: real where
  "CLUSTER_THRESHOLD = 8"

definition zoneDist :: "MapZone \<Rightarrow> MapZone \<Rightarrow> real" where
  "zoneDist current other =
     sqrt ((fst (coordinates current) - fst (coordinates other))\<^sup>2 +
           (snd (coordinates current) - snd (coordinates other))\<^sup>2)"

text \<open>
  The inner \<open>for\<close> loop, counting \<open>k = i + 1\<close> down to zero: a match is pushed onto
  \<open>clusterMembers\<close> and spliced out of \<open>processingZones\<close>.
\<close>

fun findNeighbors ::
  "MapZone \<Rightarrow> nat \<Rightarrow> MapZone list \<Rightarrow> MapZone list \<Rightarrow> MapZone list \<times> MapZone list" where
  "findNeighbors current 0 processingZones clusterMembers = (processingZones, clusterMembers)"
| "findNeighbors current (Suc i) processingZones clusterMembers =
     (let other = processingZones ! i
      in if zoneDist current other < CLUSTER_THRESHOLD
         then findNeighbors current i (take i processingZones @ drop (Suc i) processingZones)
                (clusterMembers @ [other])
         else findNeighbors current i processingZones clusterMembers)"

text \<open>
  The item pushed for a seed and its members: the seed alone, or a cluster at the mean
  coordinates with the id \<open>cluster-<seed id>-<size>\<close>.
\<close>

definition clusterId :: "MapZone \<Rightarrow> nat \<Rightarrow> jsstring" where
  "clusterId current n = [99, 108, 117, 115, 116, 101, 114, 45] @ id_z current @ [45] @ digitsOf n"

definition makeItem :: "MapZone \<Rightarrow> MapZone list \<Rightarrow> MapItem" where
  "makeItem current clusterMembers =
     (if length clusterMembers = 1 then Single (hd clusterMembers)
      else
        (let avgX = foldl (\<lambda>sum z. sum + fst (coordinates z)) 0 clusterMembers
                      / of_nat (length clusterMembers);
             avgY = foldl (\<lambda>sum z. sum + snd (coordinates z)) 0 clusterMembers
                      / of_nat (length clusterMembers)
         in Cluster clusterMembers avgX avgY (clusterId current (length clusterMembers))))"

lemma findNeighbors_length:
  "i \<le> length zs \<Longrightarrow> length (fst (findNeighbors current i zs ms)) \<le> length zs"
proof (induction i arbitrary: zs ms)
  case 0
  show ?case by simp
next
  case (Suc i)
  show ?case
  proof (cases "zoneDist current (zs ! i) < CLUSTER_THRESHOLD")
    case True
    let ?zs' = "take i zs @ drop (Suc i) zs"
    from Suc.prems have len: "length ?zs' = length zs - 1" by simp
    with Suc.prems have "i \<le> length ?zs'" by simp
    from Suc.IH[OF this, of "ms @ [zs ! i]"] len True show ?thesis by (simp add: Let_def)
  next
    case False
    with Suc.IH[of zs ms] Suc.prems show ?thesis by (simp add: Let_def)
  qed
qed

text \<open>The \<open>while\<close> loop: \<open>pop\<close> takes the last zone of the worklist as the seed.\<close>

function mapItemsLoop :: "MapZone list \<Rightarrow> MapItem list \<Rightarrow> MapItem list" where
  "mapItemsLoop processingZones items =
     (if length processingZones > 0 then
        (let current = last processingZones;
             popped = butlast processingZones;
             found = findNeighbors current (length popped) popped [current]
         in mapItemsLoop (fst found) (items @ [makeItem current (snd found)]))
      else items)"
  by pat_completeness auto
termination
proof (relation "measure (\<lambda>(zs, items). length zs)", goal_cases)
  case 1
  show ?case by simp
next
  case (2 zs items current popped found)
  have "length (fst (findNeighbors current (length popped) popped [current])) \<le> length popped"
    by (rule findNeighbors_length) simp
  with 2 show ?case by (cases zs rule: rev_cases) auto
qed

declare mapItemsLoop.simps [simp del]

definition mapItems :: "MapZone list \<Rightarrow> MapItem list" where
  "mapItems filteredZones = mapItemsLoop filteredZones []"

section \<open>Notions used to state the properties\<close>

text \<open>The members of a rendered map item.\<close>

fun members :: "MapItem \<Rightarrow> MapZone list" where
  "members (Single z) = [z]"
| "members (Cluster zs x y i) = zs"

text \<open>A zone is near the seed when its distance to it is below the threshold.\<close>

definition near :: "MapZone \<Rightarrow> MapZone \<Rightarrow> bool" where
  "near current other \<longleftrightarrow> zoneDist current other < CLUSTER_THRESHOLD"

text \<open>
  The edge list with every edge removed whose endpoints are not both ids of nodes of the
  list.  \<open>reorderNodes\<close> has no such filter; the definition states what skipping the
  dangling edges would mean.
\<close>

definition edgesWithPresentEndpoints :: "RouteNode list \<Rightarrow> RouteEdge list \<Rightarrow> RouteEdge list" where
  "edgesWithPresentEndpoints ns es =
     filter (\<lambda>e. from_e e \<in> set (map id_n ns) \<and> to_e e \<in> set (map id_n ns)) es"

text \<open>
  No edge leads from an id that is not a node id to a node: every edge whose target is a
  node id has a node id as its source.
\<close>

definition noEdgeFromAbsent :: "RouteNode list \<Rightarrow> RouteEdge list \<Rightarrow> bool" where
  "noEdgeFromAbsent ns es \<longleftrightarrow>
     (\<forall>e\<in>set es. to_e e \<in> set (map id_n ns) \<longrightarrow> from_e e \<in> set (map id_n ns))"

text \<open>
  The value of \<open>currentMinutes\<close> after the first \<open>k\<close> iterations of the timeline loop,
  and from it the clock at the arrival at and at the departure from the node at index \<open>i\<close>.
\<close>

definition clockAfter :: "RouteEdge list \<Rightarrow> RouteNode list \<Rightarrow> real \<Rightarrow> nat \<Rightarrow> real" where
  "clockAfter es sortedNodes startMinutes k =
     fst (foldl (timelineStep es sortedNodes) (startMinutes, Map.empty) [0..<k])"

definition arrivalClock :: "RouteEdge list \<Rightarrow> RouteNode list \<Rightarrow> real \<Rightarrow> nat \<Rightarrow> real" where
  "arrivalClock es sortedNodes startMinutes i =
     clockAfter es sortedNodes startMinutes i + travelTime es sortedNodes i"

definition departureClock :: "RouteEdge list \<Rightarrow> RouteNode list \<Rightarrow> real \<Rightarrow> nat \<Rightarrow> real" where
  "departureClock es sortedNodes startMinutes i = clockAfter es sortedNodes startMinutes (Suc i)"

text \<open>The two states of the loop after a node is visited, named for the lemmas.\<close>

definition visitDeg :: "RouteNode list \<Rightarrow> RouteEdge list \<Rightarrow> (int \<rightharpoonup> int) \<Rightarrow> int list \<Rightarrow> int \<Rightarrow> (int \<rightharpoonup> int)" where
  "visitDeg ns es deg rest c = fst (foldl decNeighbor (deg, rest) (neighbors (fst (buildGraph ns es)) c))"

definition visitQueue :: "RouteNode list \<Rightarrow> RouteEdge list \<Rightarrow> (int \<rightharpoonup> int) \<Rightarrow> int list \<Rightarrow> int \<Rightarrow> int list" where
  "visitQueue ns es deg rest c = snd (foldl decNeighbor (deg, rest) (neighbors (fst (buildGraph ns es)) c))"

text \<open>
  What the loop has emitted so far: one node per visited node id, the one \<open>nodeById\<close>
  holds for it.
\<close>

definition emitted :: "RouteNode list \<Rightarrow> int set \<Rightarrow> RouteNode list \<Rightarrow> bool" where
  "emitted ns vis s \<longleftrightarrow>
     distinct (map id_n s) \<and> id_n ` set s = vis \<inter> id_n ` set ns \<and>
     (\<forall>n\<in>set s. nodeById ns (id_n n) = Some n)"

text \<open>
  The stored in-degree of an id is the number of its incoming edges whose source has not
  been visited yet.
\<close>

definition pendingIn :: "RouteEdge list \<Rightarrow> int set \<Rightarrow> int \<Rightarrow> nat" where
  "pendingIn es vis v = length (filter (\<lambda>e. to_e e = v \<and> from_e e \<notin> vis) es)"

definition degInv :: "RouteEdge list \<Rightarrow> (int \<rightharpoonup> int) \<Rightarrow> int set \<Rightarrow> bool" where
  "degInv es deg vis \<longleftrightarrow> (\<forall>v. getDeg deg v = int (pendingIn es vis v))"

text \<open>
  A valid DAG over the node set: every edge joins two node ids and the edges have no cycle.
  \<open>appearsBefore u v s\<close>: the id \<open>v\<close> occurs in \<open>s\<close> and \<open>u\<close> occurs before it.
\<close>

definition edgeRel :: "RouteEdge list \<Rightarrow> (int \<times> int) set" where
  "edgeRel es = (\<lambda>e. (from_e e, to_e e)) ` set es"

definition validDag :: "RouteNode list \<Rightarrow> RouteEdge list \<Rightarrow> bool" where
  "validDag ns es \<longleftrightarrow>
     (\<forall>e\<in>set es. from_e e \<in> id_n ` set ns \<and> to_e e \<in> id_n ` set ns) \<and> acyclic (edgeRel es)"

definition appearsBefore :: "int \<Rightarrow> int \<Rightarrow> RouteNode list \<Rightarrow> bool" where
  "appearsBefore u v s \<longleftrightarrow>
     v \<in> id_n ` set s \<and> u \<in> set (takeWhile (\<lambda>k. k \<noteq> v) (map id_n s))"

definition dagInv ::
  "RouteNode list \<Rightarrow> RouteEdge list \<Rightarrow> (int \<rightharpoonup> int) \<Rightarrow> int set \<Rightarrow> int list \<Rightarrow> RouteNode list \<Rightarrow> bool" where
  "dagInv ns es deg vis q s \<longleftrightarrow>
     degInv es deg vis \<and> emitted ns vis s \<and>
     (\<forall>x\<in>set q. getDeg deg x = 0) \<and>
     (\<forall>n\<in>id_n ` set ns. getDeg deg n = 0 \<longrightarrow> n \<in> vis \<or> n \<in> set q) \<and>
     (\<forall>e\<in>set es. to_e e \<in> vis \<longrightarrow> appearsBefore (from_e e) (to_e e) s)"

text \<open>
  Two queues are similar when the second is the first without some entries that are
  already visited, or that occur earlier in the queue: the loop skips such entries.
\<close>

fun dedupFrom :: "int set \<Rightarrow> int list \<Rightarrow> int list" where
  "dedupFrom V [] = []"
| "dedupFrom V (x # xs) = (if x \<in> V then dedupFrom V xs else x # dedupFrom (insert x V) xs)"

inductive qsim :: "int set \<Rightarrow> int list \<Rightarrow> int list \<Rightarrow> bool" where
  qsim_Nil: "qsim V [] []"
| qsim_drop: "x \<in> V \<Longrightarrow> qsim V q q' \<Longrightarrow> qsim V (x # q) q'"
| qsim_keep: "qsim (insert x V) q q' \<Longrightarrow> qsim V (x # q) (x # q')"

definition isRoot :: "RouteEdge list \<Rightarrow> int \<Rightarrow> bool" where
  "isRoot es x \<longleftrightarrow> x \<notin> to_e ` set es"

definition rootsInv ::
  "RouteNode list \<Rightarrow> RouteEdge list \<Rightarrow> int list \<Rightarrow> int set \<Rightarrow> int list \<Rightarrow> RouteNode list \<Rightarrow> bool" where
  "rootsInv ns es D vis q s \<longleftrightarrow>
     filter (isRoot es) (map id_n s) @ dedupFrom vis (filter (isRoot es) q) = D \<and>
     (\<forall>r\<in>id_n ` set ns. isRoot es r \<longrightarrow> r \<in> vis \<or> r \<in> set q) \<and>
     (\<forall>x\<in>set q. isRoot es x \<longrightarrow> x \<in> id_n ` set ns) \<and>
     emitted ns vis s"


text \<open>Concrete nodes, edges and zones for the examples.\<close>

definition exNode :: "int \<Rightarrow> nat \<Rightarrow> RouteNode" where
  "exNode i c =
     \<lparr>id_n = i, name_n = [c], description_n = [], type_n = OTHER, estimatedStay = None\<rparr>"

definition exEdge :: "int \<Rightarrow> int \<Rightarrow> jsstring \<Rightarrow> RouteEdge" where
  "exEdge a b d =
     \<lparr>from_e = a, to_e = b, transportMode = WALK, duration = d, distance = [], details = None\<rparr>"

text \<open>
  A plan whose order is 1, 2, 3: node 1 has an edge of 10 minutes to node 2 and an edge to
  node 3; no edge joins node 2 and node 3.
\<close>

definition exPlan :: RoutePlan where
  "exPlan =
     \<lparr>title = [], nodes = [exNode 1 65, exNode 2 66, exNode 3 67],
      edges = [exEdge 1 2 (49 # 48 # minMarker), exEdge 1 3 []]\<rparr>"

definition exZone :: "nat \<Rightarrow> real \<Rightarrow> real \<Rightarrow> MapZone" where
  "exZone c x y =
     \<lparr>id_z = [c], city = [], name_z = [], type_z = GREEN, description_z = [],
      coordinates = (x, y), isUserGenerated = None\<rparr>"

section \<open>Lemmas about the graph orderer\<close>

lemma reorderLoop_exit_length:
  "\<not> length s < length ns \<Longrightarrow> reorderLoop ns es deg vis q s = s"
  by (simp add: reorderLoop.simps)

lemma reorderLoop_break:
  "nextId ns vis q = None \<Longrightarrow> reorderLoop ns es deg vis q s = s"
  by (simp add: reorderLoop.simps)

lemma reorderLoop_skip:
  "length s < length ns \<Longrightarrow> nextId ns vis q = Some (c, rest) \<Longrightarrow> c \<in> vis \<Longrightarrow>
   reorderLoop ns es deg vis q s = reorderLoop ns es deg vis rest s"
  by (subst reorderLoop.simps) simp

lemma reorderLoop_visit:
  "length s < length ns \<Longrightarrow> nextId ns vis q = Some (c, rest) \<Longrightarrow> c \<notin> vis \<Longrightarrow>
   reorderLoop ns es deg vis q s =
   reorderLoop ns es (visitDeg ns es deg rest c) (insert c vis) (visitQueue ns es deg rest c) (emit ns c s)"
  by (subst reorderLoop.simps) (simp add: visitDeg_def visitQueue_def Let_def)

lemma reorderLoop_rule:
  assumes init: "I deg vis q s"
    and skip: "\<And>deg vis q s c rest.
       \<lbrakk>I deg vis q s; length s < length ns; nextId ns vis q = Some (c, rest); c \<in> vis\<rbrakk>
       \<Longrightarrow> I deg vis rest s"
    and visit: "\<And>deg vis q s c rest.
       \<lbrakk>I deg vis q s; length s < length ns; nextId ns vis q = Some (c, rest); c \<notin> vis\<rbrakk>
       \<Longrightarrow> I (visitDeg ns es deg rest c) (insert c vis) (visitQueue ns es deg rest c) (emit ns c s)"
    and exit: "\<And>deg vis q s.
       \<lbrakk>I deg vis q s; \<not> length s < length ns \<or> nextId ns vis q = None\<rbrakk> \<Longrightarrow> P s"
  shows "P (reorderLoop ns es deg vis q s)"
  using assms
proof (induction ns es deg vis q s rule: reorderLoop.induct)
  case (1 ns es deg vis q s)
  show ?case
  proof (cases "length s < length ns")
    case False
    with 1(3,6) show ?thesis by (simp add: reorderLoop_exit_length)
  next
    case len: True
    show ?thesis
    proof (cases "nextId ns vis q")
      case None
      with 1(3,6) show ?thesis by (simp add: reorderLoop_break)
    next
      case (Some p)
      obtain c rest where p: "p = (c, rest)" by (cases p)
      with Some have nx: "nextId ns vis q = Some (c, rest)" by simp
      show ?thesis
      proof (cases "c \<in> vis")
        case True
        have "I deg vis rest s" using 1(4)[OF 1(3) len nx True] .
        from 1(1)[OF len nx[symmetric, THEN sym] refl True this 1(4) 1(5) 1(6)]
        show ?thesis by (simp add: reorderLoop_skip[OF len nx True])
      next
        case False
        have I': "I (visitDeg ns es deg rest c) (insert c vis) (visitQueue ns es deg rest c) (emit ns c s)"
          using 1(5)[OF 1(3) len nx False] .
        have "P (reorderLoop ns es (visitDeg ns es deg rest c) (insert c vis)
                  (visitQueue ns es deg rest c) (emit ns c s))"
          using 1(2)[OF len nx refl False refl] I' 1(4) 1(5) 1(6)
          by (simp add: visitDeg_def visitQueue_def)
        then show ?thesis by (simp add: reorderLoop_visit[OF len nx False])
      qed
    qed
  qed
qed

lemma nodeById_foldl:
  "foldl (\<lambda>m n. m(id_n n \<mapsto> n)) m ns = m ++ map_of (rev (map (\<lambda>n. (id_n n, n)) ns))"
  by (induction ns arbitrary: m) (simp_all add: map_add_upd_left)

lemma nodeById_map_of: "nodeById ns = map_of (rev (map (\<lambda>n. (id_n n, n)) ns))"
  by (simp add: nodeById_def nodeById_foldl)

lemma nodeById_SomeD: "nodeById ns k = Some n \<Longrightarrow> n \<in> set ns \<and> id_n n = k"
  by (auto simp: nodeById_map_of dest!: map_of_SomeD)

lemma nodeById_None: "nodeById ns k = None \<longleftrightarrow> k \<notin> id_n ` set ns"
  by (simp add: nodeById_map_of map_of_eq_None_iff image_image)

lemma nodeById_distinct:
  "distinct (map id_n ns) \<Longrightarrow> n \<in> set ns \<Longrightarrow> nodeById ns (id_n n) = Some n"
  by (simp add: nodeById_map_of rev_map[symmetric] o_def distinct_map map_of_eq_Some_iff)

lemma emitted_visit:
  assumes "emitted ns vis s" "c \<notin> vis"
  shows "emitted ns (insert c vis) (emit ns c s)"
proof (cases "nodeById ns c")
  case None
  then have "c \<notin> id_n ` set ns" by (simp add: nodeById_None)
  with assms None show ?thesis by (auto simp: emitted_def emit_def)
next
  case (Some n)
  then have n: "n \<in> set ns" "id_n n = c" by (auto dest: nodeById_SomeD)
  with assms have "c \<notin> id_n ` set s" by (auto simp: emitted_def)
  with assms Some n show ?thesis by (auto simp: emitted_def emit_def)
qed

lemma nextId_None_iff:
  "nextId ns vis q = None \<longleftrightarrow> q = [] \<and> id_n ` set ns \<subseteq> vis"
proof (cases q)
  case Nil
  have "find (\<lambda>n. id_n n \<notin> vis) ns = None \<longleftrightarrow> id_n ` set ns \<subseteq> vis"
    by (auto simp: find_None_iff)
  with Nil show ?thesis by (auto simp: nextId_def split: option.splits)
next
  case (Cons a l)
  then show ?thesis by (simp add: nextId_def)
qed

lemma emitted_exit:
  assumes e: "emitted ns vis s" and x: "\<not> length s < length ns \<or> nextId ns vis q = None"
  shows "id_n ` set s = id_n ` set ns"
proof -
  from e have sub: "id_n ` set s \<subseteq> id_n ` set ns" and d: "distinct (map id_n s)"
    by (auto simp: emitted_def)
  from x show ?thesis
  proof
    assume "\<not> length s < length ns"
    then have "length ns \<le> length s" by simp
    also have "length s = card (id_n ` set s)"
      using d distinct_card[of "map id_n s"] by simp
    finally have "card (id_n ` set ns) \<le> card (id_n ` set s)"
      using card_image_le[of "set ns" id_n] card_length[of ns] by simp
    with sub show ?thesis by (simp add: card_seteq)
  next
    assume "nextId ns vis q = None"
    with e show ?thesis by (auto simp: nextId_None_iff emitted_def)
  qed
qed

lemma reorderLoop_emitted:
  assumes "emitted ns vis s"
  shows "emitted ns (id_n ` set ns) (reorderLoop ns es deg vis q s)"
proof (rule reorderLoop_rule[where I = "\<lambda>deg vis q s. emitted ns vis s"])
  show "emitted ns vis s" by fact
next
  fix deg vis q s c rest
  assume "emitted ns vis s" "c \<notin> vis"
  then show "emitted ns (insert c vis) (emit ns c s)" by (rule emitted_visit)
next
  fix deg vis q s
  assume e: "emitted ns vis s" and x: "\<not> length s < length ns \<or> nextId ns vis q = None"
  from emitted_exit[OF e x] e show "emitted ns (id_n ` set ns) s"
    by (auto simp: emitted_def)
qed

lemma reorderNodes_emitted: "emitted ns (id_n ` set ns) (reorderNodes ns es)"
  unfolding reorderNodes_def Let_def
  by (rule reorderLoop_emitted) (simp add: emitted_def)

lemma getDeg_upd: "getDeg (m(k \<mapsto> d)) v = (if v = k then d else getDeg m v)"
  by (simp add: getDeg_def)

lemma getDeg_initDegree_foldl:
  "getDeg (foldl (\<lambda>m n. m(id_n n \<mapsto> 0)) m ns) v = (if v \<in> id_n ` set ns then 0 else getDeg m v)"
  by (induction ns arbitrary: m) (auto simp: getDeg_upd)

lemma getDeg_initDegree: "getDeg (initDegree ns) v = 0"
  by (simp add: initDegree_def getDeg_initDegree_foldl) (simp add: getDeg_def)

lemma addEdge_deg:
  "getDeg (snd (addEdge (adj, deg) e)) v = getDeg deg v + (if to_e e = v then 1 else 0)"
  by (simp add: addEdge_def Let_def getDeg_upd)

lemma addEdge_adj:
  "neighbors (fst (addEdge (adj, deg) e)) k =
     neighbors adj k @ (if from_e e = k then [to_e e] else [])"
  by (auto simp: addEdge_def Let_def neighbors_def split: option.splits)

lemma foldl_addEdge_deg:
  "getDeg (snd (foldl addEdge g es)) v =
     getDeg (snd g) v + int (length (filter (\<lambda>e. to_e e = v) es))"
proof (induction es arbitrary: g)
  case Nil
  show ?case by simp
next
  case (Cons e es)
  obtain adj deg where g: "g = (adj, deg)" by (cases g)
  show ?case by (simp add: Cons.IH) (simp add: g addEdge_deg)
qed

lemma foldl_addEdge_adj:
  "neighbors (fst (foldl addEdge g es)) k =
     neighbors (fst g) k @ map to_e (filter (\<lambda>e. from_e e = k) es)"
proof (induction es arbitrary: g)
  case Nil
  show ?case by simp
next
  case (Cons e es)
  obtain adj deg where g: "g = (adj, deg)" by (cases g)
  show ?case by (simp add: Cons.IH) (simp add: g addEdge_adj)
qed

lemma buildGraph_deg:
  "getDeg (snd (buildGraph ns es)) v = int (length (filter (\<lambda>e. to_e e = v) es))"
  by (simp add: buildGraph_def foldl_addEdge_deg getDeg_initDegree)

lemma buildGraph_adj:
  "neighbors (fst (buildGraph ns es)) k = map to_e (filter (\<lambda>e. from_e e = k) es)"
  by (simp add: buildGraph_def foldl_addEdge_adj) (simp add: neighbors_def)

lemma decNeighbor_deg:
  "getDeg (fst (decNeighbor dq x)) v = getDeg (fst dq) v - (if x = v then 1 else 0)"
  by (simp add: decNeighbor_def Let_def getDeg_upd)

lemma decNeighbor_queue:
  "snd (decNeighbor dq x) = snd dq @ (if getDeg (fst dq) x = 1 then [x] else [])"
  by (simp add: decNeighbor_def Let_def)

lemma foldl_decNeighbor_deg:
  "getDeg (fst (foldl decNeighbor dq xs)) v =
     getDeg (fst dq) v - int (length (filter (\<lambda>x. x = v) xs))"
  by (induction xs arbitrary: dq) (auto simp: decNeighbor_deg)

lemma foldl_decNeighbor_queue:
  "\<exists>ps. snd (foldl decNeighbor dq xs) = snd dq @ ps \<and> set ps \<subseteq> set xs"
proof (induction xs arbitrary: dq)
  case Nil
  show ?case by simp
next
  case (Cons x xs)
  from Cons.IH[of "decNeighbor dq x"] obtain ps where
    "snd (foldl decNeighbor (decNeighbor dq x) xs) = snd (decNeighbor dq x) @ ps" "set ps \<subseteq> set xs"
    by blast
  then show ?case by (auto simp: decNeighbor_queue)
qed

lemma foldl_decNeighbor_pushed:
  "y \<in> set (snd (foldl decNeighbor dq xs)) \<Longrightarrow>
     y \<in> set (snd dq) \<or> getDeg (fst (foldl decNeighbor dq xs)) y \<le> 0"
proof (induction xs arbitrary: dq)
  case Nil
  then show ?case by simp
next
  case (Cons x xs)
  from Cons.IH[of "decNeighbor dq x"] Cons.prems
  have "y \<in> set (snd (decNeighbor dq x)) \<or> getDeg (fst (foldl decNeighbor (decNeighbor dq x) xs)) y \<le> 0"
    by simp
  then show ?case
  proof
    assume "y \<in> set (snd (decNeighbor dq x))"
    then have "y \<in> set (snd dq) \<or> (y = x \<and> getDeg (fst dq) x = 1)"
      by (auto simp: decNeighbor_queue split: if_splits)
    then show ?thesis
    proof
      assume "y = x \<and> getDeg (fst dq) x = 1"
      then have "getDeg (fst (foldl decNeighbor dq (x # xs))) y \<le> 0"
        by (simp only: foldl_decNeighbor_deg) simp
      then show ?thesis ..
    qed simp
  qed simp
qed

lemma foldl_decNeighbor_zero:
  "getDeg (fst (foldl decNeighbor dq xs)) y = 0 \<Longrightarrow>
     getDeg (fst dq) y = 0 \<or> y \<in> set (snd (foldl decNeighbor dq xs))"
proof (induction xs arbitrary: dq)
  case Nil
  then show ?case by simp
next
  case (Cons x xs)
  from Cons.IH[of "decNeighbor dq x"] Cons.prems
  have "getDeg (fst (decNeighbor dq x)) y = 0 \<or> y \<in> set (snd (foldl decNeighbor (decNeighbor dq x) xs))"
    by simp
  then show ?case
  proof
    assume z: "getDeg (fst (decNeighbor dq x)) y = 0"
    show ?thesis
    proof (cases "x = y")
      case True
      with z have "getDeg (fst dq) x = 1" by (simp add: decNeighbor_deg)
      then have "y \<in> set (snd (decNeighbor dq x))" using True by (simp add: decNeighbor_queue)
      moreover from foldl_decNeighbor_queue[of "decNeighbor dq x" xs]
      have "set (snd (decNeighbor dq x)) \<subseteq> set (snd (foldl decNeighbor (decNeighbor dq x) xs))"
        by auto
      ultimately show ?thesis by auto
    next
      case False
      with z show ?thesis by (simp add: decNeighbor_deg)
    qed
  qed simp
qed

lemma degInv_init: "degInv es (snd (buildGraph ns es)) {}"
  by (simp add: degInv_def pendingIn_def buildGraph_deg)

lemma pendingIn_insert:
  "c \<notin> vis \<Longrightarrow>
   pendingIn es vis v =
     pendingIn es (insert c vis) v + length (filter (\<lambda>x. x = v) (map to_e (filter (\<lambda>e. from_e e = c) es)))"
  by (induction es) (auto simp: pendingIn_def)

lemma visitDeg_getDeg:
  "getDeg (visitDeg ns es deg rest c) v =
     getDeg deg v - int (length (filter (\<lambda>x. x = v) (map to_e (filter (\<lambda>e. from_e e = c) es))))"
  by (simp add: visitDeg_def foldl_decNeighbor_deg buildGraph_adj)

lemma degInv_visit:
  assumes "degInv es deg vis" "c \<notin> vis"
  shows "degInv es (visitDeg ns es deg rest c) (insert c vis)"
  unfolding degInv_def
proof
  fix v
  from assms(1) have "getDeg deg v = int (pendingIn es vis v)" by (simp add: degInv_def)
  with pendingIn_insert[OF assms(2), of es v]
  show "getDeg (visitDeg ns es deg rest c) v = int (pendingIn es (insert c vis) v)"
    by (simp add: visitDeg_getDeg)
qed

lemma appearsBefore_keep:
  assumes "appearsBefore u v s"
  shows "appearsBefore u v (s @ [n])"
proof -
  from assms have v: "v \<in> set (map id_n s)"
    and u: "u \<in> set (takeWhile (\<lambda>k. k \<noteq> v) (map id_n s))"
    by (simp_all add: appearsBefore_def)
  have "takeWhile (\<lambda>k. k \<noteq> v) (map id_n s @ [id_n n]) = takeWhile (\<lambda>k. k \<noteq> v) (map id_n s)"
    using v by (rule takeWhile_append1) simp
  with u v show ?thesis by (simp add: appearsBefore_def)
qed

lemma appearsBefore_emit_keep: "appearsBefore u v s \<Longrightarrow> appearsBefore u v (emit ns c s)"
  by (auto simp: emit_def appearsBefore_keep split: option.splits)

lemma appearsBefore_new:
  assumes "u \<in> id_n ` set s" "id_n n \<notin> id_n ` set s"
  shows "appearsBefore u (id_n n) (s @ [n])"
proof -
  have "takeWhile (\<lambda>k. k \<noteq> id_n n) (map id_n s @ [id_n n]) = map id_n s"
  proof -
    have "\<And>x. x \<in> set (map id_n s) \<Longrightarrow> x \<noteq> id_n n" using assms(2) by (metis list.set_map)
    from takeWhile_append2[of "map id_n s" "\<lambda>k. k \<noteq> id_n n" "[id_n n]", OF this]
    show ?thesis by simp
  qed
  with assms(1) show ?thesis by (simp add: appearsBefore_def)
qed

lemma pendingIn_zero:
  "pendingIn es vis v = 0 \<Longrightarrow> e \<in> set es \<Longrightarrow> to_e e = v \<Longrightarrow> from_e e \<in> vis"
  by (auto simp: pendingIn_def filter_empty_conv)

lemma pendingIn_pos:
  "pendingIn es vis v \<noteq> 0 \<Longrightarrow> \<exists>e\<in>set es. to_e e = v \<and> from_e e \<notin> vis"
  by (auto simp: pendingIn_def filter_empty_conv)

lemma dag_no_fallback:
  assumes dag: "validDag ns es" and J: "degInv es deg vis"
    and K: "\<forall>n\<in>id_n ` set ns. getDeg deg n = 0 \<longrightarrow> n \<in> vis"
    and c: "c \<in> id_n ` set ns" "c \<notin> vis"
  shows False
proof -
  have "finite (edgeRel es)" by (simp add: edgeRel_def)
  with dag have wf: "wf (edgeRel es)" by (simp add: validDag_def finite_acyclic_wf)
  let ?U = "id_n ` set ns - vis"
  from c have "c \<in> ?U" by simp
  from wfE_min[OF wf this] obtain z where z: "z \<in> ?U" "\<And>y. (y, z) \<in> edgeRel es \<Longrightarrow> y \<notin> ?U"
    by blast
  from z(1) K have "getDeg deg z \<noteq> 0" by auto
  with J have "pendingIn es vis z \<noteq> 0" by (simp add: degInv_def)
  from pendingIn_pos[OF this] obtain e where e: "e \<in> set es" "to_e e = z" "from_e e \<notin> vis"
    by blast
  from e(1) dag have "from_e e \<in> id_n ` set ns" by (simp add: validDag_def)
  with e(3) have "from_e e \<in> ?U" by simp
  moreover from e have "(from_e e, z) \<in> edgeRel es" by (auto simp: edgeRel_def)
  ultimately show False using z(2) by blast
qed

lemma dagInv_init:
  "dagInv ns es (snd (buildGraph ns es)) {} (rootQueue ns (snd (buildGraph ns es))) []"
  by (auto simp: dagInv_def degInv_init emitted_def rootQueue_def)

lemma dagInv_queue:
  assumes dag: "validDag ns es" and inv: "dagInv ns es deg vis q s"
    and nx: "nextId ns vis q = Some (c, rest)"
  shows "q = c # rest"
proof -
  from nextId_SomeD[OF nx] show ?thesis
  proof
    assume f: "q = [] \<and> rest = [] \<and> c \<notin> vis \<and> c \<in> id_n ` set ns"
    with inv have "\<forall>n\<in>id_n ` set ns. getDeg deg n = 0 \<longrightarrow> n \<in> vis"
      by (simp add: dagInv_def)
    with dag inv f have False by (auto simp: dagInv_def intro: dag_no_fallback)
    then show ?thesis ..
  qed
qed

lemma dagInv_skip:
  assumes dag: "validDag ns es" and inv: "dagInv ns es deg vis q s"
    and nx: "nextId ns vis q = Some (c, rest)" and c: "c \<in> vis"
  shows "dagInv ns es deg vis rest s"
proof -
  from dagInv_queue[OF dag inv nx] have q: "q = c # rest" .
  with inv c show ?thesis by (auto simp: dagInv_def)
qed

lemma dagInv_visit:
  assumes dag: "validDag ns es" and inv: "dagInv ns es deg vis q s"
    and nx: "nextId ns vis q = Some (c, rest)" and c: "c \<notin> vis"
  shows "dagInv ns es (visitDeg ns es deg rest c) (insert c vis) (visitQueue ns es deg rest c)
           (emit ns c s)"
proof -
  let ?deg' = "visitDeg ns es deg rest c" and ?q' = "visitQueue ns es deg rest c"
  let ?nbs = "neighbors (fst (buildGraph ns es)) c"
  from dagInv_queue[OF dag inv nx] have q: "q = c # rest" .
  from inv have J: "degInv es deg vis" and E: "emitted ns vis s"
    and Q0: "\<forall>x\<in>set q. getDeg deg x = 0"
    and K: "\<forall>n\<in>id_n ` set ns. getDeg deg n = 0 \<longrightarrow> n \<in> vis \<or> n \<in> set q"
    and T: "\<forall>e\<in>set es. to_e e \<in> vis \<longrightarrow> appearsBefore (from_e e) (to_e e) s"
    by (simp_all add: dagInv_def)
  have J': "degInv es ?deg' (insert c vis)" using J c by (rule degInv_visit)
  have E': "emitted ns (insert c vis) (emit ns c s)" using E c by (rule emitted_visit)
  have le: "getDeg ?deg' x \<le> getDeg deg x" for x
    by (simp add: visitDeg_getDeg)
  have nonneg: "0 \<le> getDeg ?deg' x" for x
    using J' by (simp add: degInv_def)
  have sub: "set rest \<subseteq> set ?q'"
    using foldl_decNeighbor_queue[of "(deg, rest)" ?nbs] by (auto simp: visitQueue_def)
  have Q0': "\<forall>x\<in>set ?q'. getDeg ?deg' x = 0"
  proof
    fix x assume "x \<in> set ?q'"
    then have "x \<in> set rest \<or> getDeg ?deg' x \<le> 0"
      using foldl_decNeighbor_pushed[of x "(deg, rest)" ?nbs]
      by (simp add: visitQueue_def visitDeg_def)
    then have "getDeg ?deg' x \<le> 0"
    proof
      assume "x \<in> set rest"
      with Q0 q have "getDeg deg x = 0" by simp
      with le[of x] show ?thesis by simp
    qed
    with nonneg[of x] show "getDeg ?deg' x = 0" by simp
  qed
  have K': "\<forall>n\<in>id_n ` set ns. getDeg ?deg' n = 0 \<longrightarrow> n \<in> insert c vis \<or> n \<in> set ?q'"
  proof (intro ballI impI)
    fix n assume n: "n \<in> id_n ` set ns" and z: "getDeg ?deg' n = 0"
    from z have "getDeg deg n = 0 \<or> n \<in> set ?q'"
      using foldl_decNeighbor_zero[of "(deg, rest)" ?nbs n]
      by (simp add: visitQueue_def visitDeg_def)
    then show "n \<in> insert c vis \<or> n \<in> set ?q'"
    proof
      assume "getDeg deg n = 0"
      with K n have "n \<in> vis \<or> n \<in> set q" by blast
      with q sub show ?thesis by auto
    qed simp
  qed
  have T': "\<forall>e\<in>set es. to_e e \<in> insert c vis \<longrightarrow> appearsBefore (from_e e) (to_e e) (emit ns c s)"
  proof (intro ballI impI)
    fix e assume e: "e \<in> set es" and t: "to_e e \<in> insert c vis"
    show "appearsBefore (from_e e) (to_e e) (emit ns c s)"
    proof (cases "to_e e \<in> vis")
      case True
      with T e show ?thesis by (simp add: appearsBefore_emit_keep)
    next
      case False
      with t have tc: "to_e e = c" by simp
      from e dag have ends: "from_e e \<in> id_n ` set ns" "to_e e \<in> id_n ` set ns"
        by (simp_all add: validDag_def)
      from ends(2) tc obtain n where n: "nodeById ns c = Some n"
        by (cases "nodeById ns c") (auto simp: nodeById_None)
      then have idn: "id_n n = c" by (auto dest: nodeById_SomeD)
      from Q0 q have "getDeg deg c = 0" by simp
      with J have "pendingIn es vis c = 0" by (simp add: degInv_def)
      from pendingIn_zero[OF this e tc] have "from_e e \<in> vis" .
      with ends(1) E have u: "from_e e \<in> id_n ` set s" by (simp add: emitted_def)
      from E c have "c \<notin> id_n ` set s" by (simp add: emitted_def)
      with u idn have "appearsBefore (from_e e) (id_n n) (s @ [n])"
        by (intro appearsBefore_new) simp_all
      with n idn tc show ?thesis by (simp add: emit_def)
    qed
  qed
  from J' E' Q0' K' T' show ?thesis by (simp add: dagInv_def)
qed

lemma reorderLoop_cases_induct [consumes 0, case_names exit skip visit]:
  assumes exit: "\<And>deg vis q s.
       \<not> length s < length ns \<or> nextId ns vis q = None \<Longrightarrow> P deg vis q s"
    and skip: "\<And>deg vis q s c rest.
       \<lbrakk>length s < length ns; nextId ns vis q = Some (c, rest); c \<in> vis; P deg vis rest s\<rbrakk>
       \<Longrightarrow> P deg vis q s"
    and visit: "\<And>deg vis q s c rest.
       \<lbrakk>length s < length ns; nextId ns vis q = Some (c, rest); c \<notin> vis;
        P (visitDeg ns es deg rest c) (insert c vis) (visitQueue ns es deg rest c) (emit ns c s)\<rbrakk>
       \<Longrightarrow> P deg vis q s"
  shows "P deg vis q s"
proof -
  have "ns' = ns \<longrightarrow> es' = es \<longrightarrow> P deg vis q s" for ns' es'
  proof (induction ns' es' deg vis q s rule: reorderLoop.induct)
    case (1 ns' es' deg vis q s)
    show ?case
    proof (intro impI)
      assume eq: "ns' = ns" "es' = es"
      show "P deg vis q s"
      proof (cases "length s < length ns")
        case False
        then show ?thesis by (intro exit) simp
      next
        case len: True
        show ?thesis
        proof (cases "nextId ns vis q")
          case None
          then show ?thesis by (intro exit) simp
        next
          case (Some p)
          obtain c rest where p: "p = (c, rest)" by (cases p)
          with Some have nx: "nextId ns vis q = Some (c, rest)" by simp
          show ?thesis
          proof (cases "c \<in> vis")
            case True
            from 1(1)[of "(c, rest)" c rest] len nx True eq
            have "P deg vis rest s" by simp
            with len nx True show ?thesis by (rule skip)
          next
            case False
            from 1(2)[of "(c, rest)" c rest, OF _ _ refl False refl] len nx eq
            have "P (visitDeg ns es deg rest c) (insert c vis) (visitQueue ns es deg rest c) (emit ns c s)"
              by (simp add: visitDeg_def visitQueue_def)
            with len nx False show ?thesis by (rule visit)
          qed
        qed
      qed
    qed
  qed
  then show ?thesis by simp
qed

lemma initDegree_foldl_eq:
  "foldl (\<lambda>m n. m(id_n n \<mapsto> 0)) m ns = (\<lambda>k. if k \<in> id_n ` set ns then Some 0 else m k)"
  by (induction ns arbitrary: m) (auto simp: fun_eq_iff)

lemma initDegree_eq: "initDegree ns = (\<lambda>k. if k \<in> id_n ` set ns then Some 0 else None)"
  by (simp add: initDegree_def initDegree_foldl_eq)

lemma buildGraph_cong:
  "id_n ` set ns = id_n ` set ns' \<Longrightarrow> buildGraph ns es = buildGraph ns' es"
  by (simp add: buildGraph_def initDegree_eq)

lemma visitDeg_cong:
  "id_n ` set ns = id_n ` set ns' \<Longrightarrow> visitDeg ns es = visitDeg ns' es"
  by (simp add: visitDeg_def fun_eq_iff buildGraph_cong[of ns ns'])

lemma visitQueue_cong:
  "id_n ` set ns = id_n ` set ns' \<Longrightarrow> visitQueue ns es = visitQueue ns' es"
  by (simp add: visitQueue_def fun_eq_iff buildGraph_cong[of ns ns'])

lemma emitted_nodeById:
  assumes "emitted ns (id_n ` set ns) out"
  shows "nodeById out = nodeById ns"
proof
  fix k
  from assms have d: "distinct (map id_n out)" and ids: "id_n ` set out = id_n ` set ns"
    and nb: "\<forall>n\<in>set out. nodeById ns (id_n n) = Some n"
    by (auto simp: emitted_def)
  show "nodeById out k = nodeById ns k"
  proof (cases "k \<in> id_n ` set ns")
    case False
    with ids show ?thesis by (simp add: nodeById_None[THEN iffD2])
  next
    case True
    with ids have "k \<in> id_n ` set out" by simp
    then obtain m where m: "m \<in> set out" "id_n m = k" by blast
    with nb have "nodeById ns k = Some m" by auto
    moreover from d m have "nodeById out k = Some m" by (auto dest: nodeById_distinct)
    ultimately show ?thesis by simp
  qed
qed

lemma emit_cong: "emitted ns (id_n ` set ns) out \<Longrightarrow> emit out c s = emit ns c s"
  by (simp add: emit_def emitted_nodeById)

lemma foldl_decNeighbor_split:
  "foldl decNeighbor (deg, q) xs =
     (fst (foldl decNeighbor (deg, []) xs), q @ snd (foldl decNeighbor (deg, []) xs))"
proof (induction xs arbitrary: deg q rule: rev_induct)
  case Nil
  show ?case by simp
next
  case (snoc x xs)
  show ?case
    by (simp add: snoc.IH[of deg q]) (auto simp: decNeighbor_def Let_def fun_eq_iff)
qed

lemma visitQueue_append: "visitQueue ns es deg rest c = rest @ visitQueue ns es deg [] c"
  by (simp add: visitQueue_def foldl_decNeighbor_split[of deg rest])

lemma visitDeg_rest: "visitDeg ns es deg rest c = visitDeg ns es deg [] c"
  by (simp add: visitDeg_def foldl_decNeighbor_split[of deg rest])

lemma visitQueue_pushed: "set (visitQueue ns es deg [] c) \<subseteq> to_e ` set es"
proof -
  from foldl_decNeighbor_queue[of "(deg, [])" "neighbors (fst (buildGraph ns es)) c"]
  show ?thesis by (auto simp: visitQueue_def buildGraph_adj)
qed

lemma reorderLoop_extends: "\<exists>t. reorderLoop ns es deg vis q s = s @ t"
proof (rule reorderLoop_rule[where I = "\<lambda>deg vis q s'. \<exists>t. s' = s @ t"])
  show "\<exists>t. s = s @ t" by simp
next
  fix s' :: "RouteNode list" and c
  assume "\<exists>t. s' = s @ t"
  then show "\<exists>t. emit ns c s' = s @ t" by (auto simp: emit_def split: option.splits)
qed

inductive_cases qsim_NilE: "qsim V [] q'"

inductive_cases qsim_ConsE: "qsim V (x # q) q'"

lemma qsim_refl: "qsim V q q"
  by (induction q arbitrary: V) (auto intro: qsim.intros)

lemma qsim_append: "qsim V q q' \<Longrightarrow> qsim V (q @ ps) (q' @ ps)"
  by (induction rule: qsim.induct) (auto intro: qsim.intros qsim_refl)

lemma qsim_dedupFrom: "qsim V q (dedupFrom V q)"
  by (induction q arbitrary: V) (auto intro: qsim.intros)

lemma qsim_Cons_new:
  assumes "qsim V (x # q) q'" "x \<notin> V"
  obtains r where "q' = x # r" "qsim (insert x V) q r"
  using assms by (auto elim: qsim_ConsE)

lemma qsim_Cons_old:
  assumes "qsim V (x # q) q'" "x \<in> V"
  shows "qsim V q q' \<or> (\<exists>r. q' = x # r \<and> qsim V q r)"
  using assms by (auto elim!: qsim_ConsE simp: insert_absorb)

lemma dedupFrom_notin: "c \<notin> set xs \<Longrightarrow> dedupFrom (insert c V) xs = dedupFrom V xs"
proof (induction xs arbitrary: V)
  case Nil
  show ?case by simp
next
  case (Cons a xs)
  then have "dedupFrom (insert c (insert a V)) xs = dedupFrom (insert a V) xs" by simp
  then have "dedupFrom (insert a (insert c V)) xs = dedupFrom (insert a V) xs"
    by (simp add: insert_commute)
  with Cons show ?case by simp
qed

lemma dedupFrom_all_seen: "set xs \<subseteq> V \<Longrightarrow> dedupFrom V xs = []"
  by (induction xs arbitrary: V) auto

lemma isRoot_deg: "getDeg (snd (buildGraph ns es)) x = 0 \<longleftrightarrow> isRoot es x"
  by (auto simp: buildGraph_deg isRoot_def filter_empty_conv)

lemma rootQueue_eq:
  "rootQueue ns (snd (buildGraph ns' es)) = filter (isRoot es) (map id_n ns)"
  by (simp add: rootQueue_def filter_map o_def isRoot_deg)

lemma filter_isRoot_pushed: "filter (isRoot es) (visitQueue ns es deg [] c) = []"
  using visitQueue_pushed[of ns es deg c] by (auto simp: filter_empty_conv isRoot_def)

lemma emit_ids:
  "map id_n (emit ns c s) = map id_n s @ (if c \<in> id_n ` set ns then [c] else [])"
proof (cases "nodeById ns c")
  case None
  moreover from None have "c \<notin> id_n ` set ns" by (simp add: nodeById_None)
  ultimately show ?thesis by (simp add: emit_def)
next
  case (Some n)
  then have "n \<in> set ns" "id_n n = c" by (auto dest: nodeById_SomeD)
  with Some show ?thesis by (auto simp: emit_def)
qed

lemma rootsInv_skip:
  assumes inv: "rootsInv ns es D vis q s" and nx: "nextId ns vis q = Some (c, rest)" and c: "c \<in> vis"
  shows "rootsInv ns es D vis rest s"
proof -
  from nextId_SomeD[OF nx] c have q: "q = c # rest" by auto
  with inv c show ?thesis by (auto simp: rootsInv_def)
qed

lemma rootsInv_visit:
  assumes inv: "rootsInv ns es D vis q s" and nx: "nextId ns vis q = Some (c, rest)" and c: "c \<notin> vis"
  shows "rootsInv ns es D (insert c vis) (visitQueue ns es deg rest c) (emit ns c s)"
proof -
  let ?R = "isRoot es"
  from inv have D: "filter ?R (map id_n s) @ dedupFrom vis (filter ?R q) = D"
    and all: "\<forall>r\<in>id_n ` set ns. ?R r \<longrightarrow> r \<in> vis \<or> r \<in> set q"
    and qn: "\<forall>x\<in>set q. ?R x \<longrightarrow> x \<in> id_n ` set ns"
    and E: "emitted ns vis s"
    by (simp_all add: rootsInv_def)
  have vq: "visitQueue ns es deg rest c = rest @ visitQueue ns es deg [] c"
    by (rule visitQueue_append)
  have fq: "filter ?R (visitQueue ns es deg rest c) = filter ?R rest"
    by (simp add: vq filter_isRoot_pushed)
  have pushed: "\<forall>x\<in>set (visitQueue ns es deg [] c). \<not> ?R x"
    using visitQueue_pushed[of ns es deg c] by (auto simp: isRoot_def)
  have rest_q: "set rest \<subseteq> set q" using nextId_SomeD[OF nx] by auto
  from nextId_SomeD[OF nx] have cq: "c \<in> set q \<or> q = []" by auto
  have D': "filter ?R (map id_n (emit ns c s)) @
              dedupFrom (insert c vis) (filter ?R (visitQueue ns es deg rest c)) = D"
  proof (cases "?R c")
    case True
    from nextId_SomeD[OF nx] have "q = c # rest"
    proof
      assume f: "q = [] \<and> rest = [] \<and> c \<notin> vis \<and> c \<in> id_n ` set ns"
      with all True have False by auto
      then show ?thesis ..
    qed
    moreover with qn True have "c \<in> id_n ` set ns" by simp
    ultimately show ?thesis using D True c by (simp add: fq emit_ids)
  next
    case False
    then have "c \<notin> set (filter ?R rest)" by simp
    then have dd: "dedupFrom (insert c vis) (filter ?R rest) = dedupFrom vis (filter ?R rest)"
      by (rule dedupFrom_notin)
    from nextId_SomeD[OF nx] False have "filter ?R q = filter ?R rest" by auto
    with D dd False show ?thesis by (simp add: fq emit_ids)
  qed
  have all': "\<forall>r\<in>id_n ` set ns. ?R r \<longrightarrow> r \<in> insert c vis \<or> r \<in> set (visitQueue ns es deg rest c)"
  proof (intro ballI impI)
    fix r assume "r \<in> id_n ` set ns" "?R r"
    with all have "r \<in> vis \<or> r \<in> set q" by blast
    with nextId_SomeD[OF nx] show "r \<in> insert c vis \<or> r \<in> set (visitQueue ns es deg rest c)"
      by (auto simp: vq)
  qed
  have qn': "\<forall>x\<in>set (visitQueue ns es deg rest c). ?R x \<longrightarrow> x \<in> id_n ` set ns"
    using qn rest_q pushed by (auto simp: vq)
  from D' all' qn' emitted_visit[OF E c] show ?thesis by (simp add: rootsInv_def)
qed

lemma reorderNodes_roots_first:
  "filter (isRoot es) (map id_n (reorderNodes ns es)) =
     dedupFrom {} (filter (isRoot es) (map id_n ns))"
  unfolding reorderNodes_def Let_def
proof (rule reorderLoop_rule[where
        I = "\<lambda>deg. rootsInv ns es (dedupFrom {} (filter (isRoot es) (map id_n ns)))"])
  show "rootsInv ns es (dedupFrom {} (filter (isRoot es) (map id_n ns))) {}
          (rootQueue ns (snd (buildGraph ns es))) []"
    by (auto simp: rootsInv_def rootQueue_eq emitted_def)
next
  fix deg vis q s c rest
  assume "rootsInv ns es (dedupFrom {} (filter (isRoot es) (map id_n ns))) vis q s"
    "nextId ns vis q = Some (c, rest)" "c \<in> vis"
  then show "rootsInv ns es (dedupFrom {} (filter (isRoot es) (map id_n ns))) vis rest s"
    by (rule rootsInv_skip)
next
  fix deg vis q s c rest
  assume "rootsInv ns es (dedupFrom {} (filter (isRoot es) (map id_n ns))) vis q s"
    "nextId ns vis q = Some (c, rest)" "c \<notin> vis"
  then show "rootsInv ns es (dedupFrom {} (filter (isRoot es) (map id_n ns))) (insert c vis)
          (visitQueue ns es deg rest c) (emit ns c s)"
    by (rule rootsInv_visit)
next
  fix deg vis q s
  assume inv: "rootsInv ns es (dedupFrom {} (filter (isRoot es) (map id_n ns))) vis q s"
    and x: "\<not> length s < length ns \<or> nextId ns vis q = None"
  from inv have E: "emitted ns vis s" by (simp add: rootsInv_def)
  from emitted_exit[OF E x] E have "id_n ` set ns \<subseteq> vis" by (auto simp: emitted_def)
  with inv have "set (filter (isRoot es) q) \<subseteq> vis" by (auto simp: rootsInv_def)
  then have "dedupFrom vis (filter (isRoot es) q) = []" by (rule dedupFrom_all_seen)
  with inv show "filter (isRoot es) (map id_n s) = dedupFrom {} (filter (isRoot es) (map id_n ns))"
    by (simp add: rootsInv_def)
qed

lemma find_skip_prefix: "\<forall>m\<in>set xs. \<not> P m \<Longrightarrow> find P (xs @ ys) = find P ys"
  by (induction xs) auto

lemma nextId_Cons: "nextId ns vis (c # r) = Some (c, r)"
  by (simp add: nextId_def)

lemma reorderLoop_sim:
  "\<lbrakk>reorderLoop ns es deg vis q s = out; emitted ns vis s; qsim vis q q'\<rbrakk>
   \<Longrightarrow> reorderLoop out es deg vis q' s = out"
proof (induction deg vis q s arbitrary: q' rule: reorderLoop_cases_induct[where ns = ns and es = es])
  case (exit deg vis q s)
  then have "reorderLoop ns es deg vis q s = s"
    by (auto simp: reorderLoop_exit_length reorderLoop_break)
  with exit.prems have "s = out" by simp
  then show ?case by (simp add: reorderLoop_exit_length)
next
  case (skip deg vis q s c rest)
  from skip.hyps have l1: "reorderLoop ns es deg vis q s = reorderLoop ns es deg vis rest s"
    by (intro reorderLoop_skip)
  with skip.prems have r1: "reorderLoop ns es deg vis rest s = out" by simp
  from reorderLoop_extends[of ns es deg vis q s] skip.prems(1)
  obtain t where t: "out = s @ t" by auto
  from nextId_SomeD[OF skip.hyps(2)] skip.hyps(3) have q: "q = c # rest" by auto
  from qsim_Cons_old[OF skip.prems(3)[unfolded q] skip.hyps(3)] show ?case
  proof
    assume "qsim vis rest q'"
    with r1 skip.prems(2) show ?thesis by (rule skip.IH)
  next
    assume "\<exists>r. q' = c # r \<and> qsim vis rest r"
    then obtain r where r: "q' = c # r" "qsim vis rest r" by blast
    from skip.IH[OF r1 skip.prems(2) r(2)] have ih: "reorderLoop out es deg vis r s = out" .
    show ?thesis
    proof (cases "length s < length out")
      case True
      have "reorderLoop out es deg vis (c # r) s = reorderLoop out es deg vis r s"
        using True nextId_Cons skip.hyps(3) by (rule reorderLoop_skip)
      with ih r(1) show ?thesis by simp
    next
      case False
      with t have "s = out" by simp
      with False r(1) show ?thesis by (simp add: reorderLoop_exit_length)
    qed
  qed
next
  case (visit deg vis q s c rest)
  let ?deg' = "visitDeg ns es deg rest c" and ?q1 = "visitQueue ns es deg rest c"
  let ?s' = "emit ns c s"
  from visit.hyps have l1: "reorderLoop ns es deg vis q s =
      reorderLoop ns es ?deg' (insert c vis) ?q1 ?s'"
    by (intro reorderLoop_visit)
  with visit.prems have r1: "reorderLoop ns es ?deg' (insert c vis) ?q1 ?s' = out" by simp
  have E': "emitted ns (insert c vis) ?s'" using visit.prems(2) visit.hyps(3) by (rule emitted_visit)
  from reorderLoop_emitted[OF visit.prems(2), of es deg q] visit.prems(1)
  have Eo: "emitted ns (id_n ` set ns) out" by simp
  then have ids: "id_n ` set out = id_n ` set ns" by (auto simp: emitted_def)
  note cong = visitDeg_cong[OF ids] visitQueue_cong[OF ids] emit_cong[OF Eo]
  from reorderLoop_extends[of ns es deg vis q s] visit.prems(1)
  obtain t where t: "out = s @ t" by auto
  from reorderLoop_extends[of ns es ?deg' "insert c vis" ?q1 ?s'] r1
  obtain t' where t': "out = ?s' @ t'" by auto
  show ?case
  proof (cases "length s < length out")
    case False
    with t have "s = out" by simp
    with False show ?thesis by (simp add: reorderLoop_exit_length)
  next
    case len2: True
    from nextId_SomeD[OF visit.hyps(2)] show ?thesis
    proof
      assume q: "q = c # rest"
      from visit.prems(3)[unfolded q] visit.hyps(3)
      obtain r where r: "q' = c # r" "qsim (insert c vis) rest r" by (rule qsim_Cons_new)
      have "qsim (insert c vis) (rest @ visitQueue ns es deg [] c) (r @ visitQueue ns es deg [] c)"
        using r(2) by (rule qsim_append)
      then have "qsim (insert c vis) ?q1 (visitQueue ns es deg r c)"
        by (simp add: visitQueue_append[of ns es deg rest] visitQueue_append[of ns es deg r])
      from visit.IH[OF r1 E' this]
      have "reorderLoop out es ?deg' (insert c vis) (visitQueue ns es deg r c) ?s' = out" .
      moreover have "visitDeg ns es deg r c = ?deg'"
        by (simp add: visitDeg_rest[of ns es deg rest] visitDeg_rest[of ns es deg r])
      moreover have "reorderLoop out es deg vis (c # r) s =
          reorderLoop out es (visitDeg out es deg r c) (insert c vis) (visitQueue out es deg r c)
            (emit out c s)"
        using len2 nextId_Cons visit.hyps(3) by (rule reorderLoop_visit)
      ultimately show ?thesis
        using r(1) by (simp add: cong)
    next
      assume f: "q = [] \<and> rest = [] \<and> c \<notin> vis \<and> c \<in> id_n ` set ns"
      with visit.prems(3) have q': "q' = []" by (auto elim: qsim_NilE)
      from f obtain n where n: "nodeById ns c = Some n"
        by (cases "nodeById ns c") (auto simp: nodeById_None)
      then have idn: "id_n n = c" by (auto dest: nodeById_SomeD)
      from n t' have out: "out = s @ n # t'" by (simp add: emit_def)
      from visit.prems(2) have "\<forall>m\<in>set s. \<not> id_n m \<notin> vis" by (auto simp: emitted_def)
      then have "find (\<lambda>m. id_n m \<notin> vis) out = find (\<lambda>m. id_n m \<notin> vis) (n # t')"
        unfolding out by (rule find_skip_prefix)
      with idn f have nx2: "nextId out vis [] = Some (c, [])" by (simp add: nextId_def)
      from visit.IH[OF r1 E' qsim_refl]
      have "reorderLoop out es ?deg' (insert c vis) ?q1 ?s' = out" .
      moreover have "reorderLoop out es deg vis [] s =
          reorderLoop out es (visitDeg out es deg [] c) (insert c vis) (visitQueue out es deg [] c)
            (emit out c s)"
        using len2 nx2 visit.hyps(3) by (rule reorderLoop_visit)
      ultimately show ?thesis using f q' by (simp add: cong)
    qed
  qed
qed

text \<open>
  Dangling edges: the run on all edges against the run on the edges with both endpoints
  present.  The second run has the node ids of the first in its visited set and in its
  queue, and the same in-degrees on the node ids.
\<close>

lemma present_deg:
  assumes "noEdgeFromAbsent ns es" "v \<in> id_n ` set ns"
  shows "getDeg (snd (buildGraph ns (edgesWithPresentEndpoints ns es))) v =
         getDeg (snd (buildGraph ns es)) v"
proof -
  have "filter (\<lambda>e. to_e e = v) (edgesWithPresentEndpoints ns es) = filter (\<lambda>e. to_e e = v) es"
    using assms unfolding edgesWithPresentEndpoints_def noEdgeFromAbsent_def
    by (auto intro!: filter_cong simp: filter_filter)
  then show ?thesis by (simp add: buildGraph_deg)
qed

lemma present_neighbors:
  "c \<in> id_n ` set ns \<Longrightarrow>
   neighbors (fst (buildGraph ns (edgesWithPresentEndpoints ns es))) c =
     filter (\<lambda>x. x \<in> id_n ` set ns) (neighbors (fst (buildGraph ns es)) c)"
  unfolding buildGraph_adj edgesWithPresentEndpoints_def
  by (induction es) auto

lemma absent_neighbors:
  assumes "noEdgeFromAbsent ns es" "c \<notin> id_n ` set ns"
  shows "filter (\<lambda>x. x \<in> id_n ` set ns) (neighbors (fst (buildGraph ns es)) c) = []"
  using assms unfolding buildGraph_adj noEdgeFromAbsent_def
  by (auto simp: filter_empty_conv)

lemma foldl_decNeighbor_present:
  assumes "\<forall>v\<in>N. getDeg dA v = getDeg dB v"
  shows "(\<forall>v\<in>N. getDeg (fst (foldl decNeighbor (dA, qA) xs)) v =
                 getDeg (fst (foldl decNeighbor (dB, filter (\<lambda>x. x \<in> N) qA)
                                (filter (\<lambda>x. x \<in> N) xs))) v) \<and>
         snd (foldl decNeighbor (dB, filter (\<lambda>x. x \<in> N) qA) (filter (\<lambda>x. x \<in> N) xs)) =
           filter (\<lambda>x. x \<in> N) (snd (foldl decNeighbor (dA, qA) xs))"
  using assms
proof (induction xs arbitrary: dA qA dB)
  case Nil
  then show ?case by simp
next
  case (Cons x xs)
  obtain dA' qA' where A: "decNeighbor (dA, qA) x = (dA', qA')" by (cases "decNeighbor (dA, qA) x")
  then have dA': "\<And>v. getDeg dA' v = getDeg dA v - (if x = v then 1 else 0)"
    and qA': "qA' = qA @ (if getDeg dA x = 1 then [x] else [])"
    using decNeighbor_deg[of "(dA, qA)" x] decNeighbor_queue[of "(dA, qA)" x] by simp_all
  show ?case
  proof (cases "x \<in> N")
    case True
    obtain dB' qB' where B: "decNeighbor (dB, filter (\<lambda>x. x \<in> N) qA) x = (dB', qB')"
      by (cases "decNeighbor (dB, filter (\<lambda>x. x \<in> N) qA) x")
    then have dB': "\<And>v. getDeg dB' v = getDeg dB v - (if x = v then 1 else 0)"
      and qB': "qB' = filter (\<lambda>x. x \<in> N) qA @ (if getDeg dB x = 1 then [x] else [])"
      using decNeighbor_deg[of "(dB, filter (\<lambda>x. x \<in> N) qA)" x]
        decNeighbor_queue[of "(dB, filter (\<lambda>x. x \<in> N) qA)" x] by simp_all
    from Cons.prems True have eqx: "getDeg dA x = getDeg dB x" by simp
    have agree: "\<forall>v\<in>N. getDeg dA' v = getDeg dB' v" using Cons.prems by (simp add: dA' dB')
    have q: "qB' = filter (\<lambda>x. x \<in> N) qA'" using True eqx by (simp add: qA' qB')
    from Cons.IH[OF agree, of qA'] True show ?thesis by (simp add: A B q)
  next
    case False
    have agree: "\<forall>v\<in>N. getDeg dA' v = getDeg dB v" using Cons.prems False by (auto simp: dA')
    have q: "filter (\<lambda>x. x \<in> N) qA' = filter (\<lambda>x. x \<in> N) qA" using False by (simp add: qA')
    from Cons.IH[OF agree, of qA'] False show ?thesis by (simp add: A q)
  qed
qed

lemma emit_absent: "c \<notin> id_n ` set ns \<Longrightarrow> emit ns c s = s"
  by (simp add: emit_def nodeById_None[THEN iffD2])

lemma reorderLoop_present:
  assumes H: "noEdgeFromAbsent ns es"
  shows "\<lbrakk>visB = visA \<inter> id_n ` set ns; \<forall>v\<in>id_n ` set ns. getDeg degA v = getDeg degB v\<rbrakk>
   \<Longrightarrow> reorderLoop ns (edgesWithPresentEndpoints ns es) degB visB
         (filter (\<lambda>x. x \<in> id_n ` set ns) qA) s =
       reorderLoop ns es degA visA qA s"
proof (induction degA visA qA s arbitrary: degB visB
         rule: reorderLoop_cases_induct[where ns = ns and es = es])
  case (exit degA visA qA s)
  let ?P = "\<lambda>x. x \<in> id_n ` set ns"
  from exit.hyps have A: "reorderLoop ns es degA visA qA s = s"
    by (auto simp: reorderLoop_exit_length reorderLoop_break)
  from exit.hyps have "\<not> length s < length ns \<or> nextId ns visB (filter ?P qA) = None"
    using exit.prems(1) by (auto simp: nextId_None_iff)
  then have "reorderLoop ns (edgesWithPresentEndpoints ns es) degB visB (filter ?P qA) s = s"
    by (auto simp: reorderLoop_exit_length reorderLoop_break)
  with A show ?case by simp
next
  case (skip degA visA qA s c rest)
  let ?P = "\<lambda>x. x \<in> id_n ` set ns"
  let ?es' = "edgesWithPresentEndpoints ns es"
  from nextId_SomeD[OF skip.hyps(2)] skip.hyps(3) have q: "qA = c # rest" by auto
  have A: "reorderLoop ns es degA visA qA s = reorderLoop ns es degA visA rest s"
    using skip.hyps(1,2,3) by (rule reorderLoop_skip)
  have ih: "reorderLoop ns ?es' degB visB (filter ?P rest) s = reorderLoop ns es degA visA rest s"
    using skip.prems by (rule skip.IH)
  show ?case
  proof (cases "?P c")
    case True
    with skip.hyps(3) skip.prems(1) have cB: "c \<in> visB" by simp
    have "reorderLoop ns ?es' degB visB (c # filter ?P rest) s =
          reorderLoop ns ?es' degB visB (filter ?P rest) s"
      using skip.hyps(1) nextId_Cons cB by (rule reorderLoop_skip)
    with True ih A q show ?thesis by simp
  next
    case False
    with ih A q show ?thesis by simp
  qed
next
  case (visit degA visA qA s c rest)
  let ?N = "id_n ` set ns"
  let ?P = "\<lambda>x. x \<in> ?N"
  let ?es' = "edgesWithPresentEndpoints ns es"
  let ?nbs = "neighbors (fst (buildGraph ns es)) c"
  have A: "reorderLoop ns es degA visA qA s =
      reorderLoop ns es (visitDeg ns es degA rest c) (insert c visA)
        (visitQueue ns es degA rest c) (emit ns c s)"
    using visit.hyps(1,2,3) by (rule reorderLoop_visit)
  from foldl_decNeighbor_present[OF visit.prems(2), of rest ?nbs]
  have agree: "\<forall>v\<in>?N. getDeg (visitDeg ns es degA rest c) v =
        getDeg (fst (foldl decNeighbor (degB, filter ?P rest) (filter ?P ?nbs))) v"
    and queue: "snd (foldl decNeighbor (degB, filter ?P rest) (filter ?P ?nbs)) =
        filter ?P (visitQueue ns es degA rest c)"
    by (simp_all add: visitDeg_def visitQueue_def)
  show ?case
  proof (cases "?P c")
    case False
    from absent_neighbors[OF H False] agree queue
    have agree': "\<forall>v\<in>?N. getDeg (visitDeg ns es degA rest c) v = getDeg degB v"
      and queue': "filter ?P (visitQueue ns es degA rest c) = filter ?P rest"
      by simp_all
    from nextId_SomeD[OF visit.hyps(2)] False have q: "qA = c # rest" by auto
    from False visit.prems(1) have vB: "visB = insert c visA \<inter> ?N" by auto
    from visit.IH[OF vB agree'] queue' q False A show ?thesis
      by (simp add: emit_absent)
  next
    case True
    from visit.hyps(3) visit.prems(1) have cB: "c \<notin> visB" by simp
    from True visit.prems(1) have vB: "insert c visB = insert c visA \<inter> ?N" by auto
    have nbB: "neighbors (fst (buildGraph ns ?es')) c = filter ?P ?nbs"
      using True by (rule present_neighbors)
    have nx: "nextId ns visB (filter ?P qA) = Some (c, filter ?P rest)"
    proof -
      from nextId_SomeD[OF visit.hyps(2)] show ?thesis
      proof
        assume "qA = c # rest"
        with True show ?thesis by (simp add: nextId_def)
      next
        assume f: "qA = [] \<and> rest = [] \<and> c \<notin> visA \<and> c \<in> id_n ` set ns"
        have "find (\<lambda>n. id_n n \<notin> visB) ns = find (\<lambda>n. id_n n \<notin> visA) ns"
          using visit.prems(1) by (intro find_cong) auto
        with visit.hyps(2) f show ?thesis by (simp add: nextId_def)
      qed
    qed
    have B: "reorderLoop ns ?es' degB visB (filter ?P qA) s =
        reorderLoop ns ?es' (visitDeg ns ?es' degB (filter ?P rest) c) (insert c visB)
          (visitQueue ns ?es' degB (filter ?P rest) c) (emit ns c s)"
      using visit.hyps(1) nx cB by (rule reorderLoop_visit)
    have dB: "\<forall>v\<in>?N. getDeg (visitDeg ns es degA rest c) v =
        getDeg (visitDeg ns ?es' degB (filter ?P rest) c) v"
      using agree by (simp add: visitDeg_def nbB)
    have qB: "visitQueue ns ?es' degB (filter ?P rest) c =
        filter ?P (visitQueue ns es degA rest c)"
      using queue by (simp add: visitQueue_def nbB)
    from visit.IH[OF vB dB] A B qB show ?thesis by simp
  qed
qed

lemma rootQueue_present:
  assumes "noEdgeFromAbsent ns es"
  shows "rootQueue ns (snd (buildGraph ns (edgesWithPresentEndpoints ns es))) =
         rootQueue ns (snd (buildGraph ns es))"
  unfolding rootQueue_def
  by (rule arg_cong[where f = "map id_n"], rule filter_cong) (simp_all add: present_deg[OF assms])

text \<open>Evaluation of the examples.\<close>

lemmas reorder_eval =
  reorderNodes_def buildGraph_def initDegree_def addEdge_def getDeg_def rootQueue_def
  reorderLoop.simps nextId_def emit_def nodeById_def neighbors_def decNeighbor_def
  exNode_def exEdge_def

lemma ex_duplicate_ids: "reorderNodes [exNode 1 65, exNode 1 66] [] = [exNode 1 66]"
  by (simp add: reorder_eval)

lemma ex_dangling: "reorderNodes [exNode 2 65, exNode 1 66] [exEdge 99 2 []] = [exNode 1 66, exNode 2 65]"
  by (simp add: reorder_eval)

lemma ex_no_edges: "reorderNodes [exNode 2 65, exNode 1 66] [] = [exNode 2 65, exNode 1 66]"
  by (simp add: reorder_eval)

lemma ex_cycle:
  "reorderNodes [exNode 1 65, exNode 2 66] [exEdge 1 2 [], exEdge 2 1 []] = [exNode 1 65, exNode 2 66]"
  by (simp add: reorder_eval)

lemma ex_dag:
  "reorderNodes [exNode 3 67, exNode 2 66, exNode 1 65] [exEdge 1 2 [], exEdge 2 3 [], exEdge 1 3 []]
     = [exNode 1 65, exNode 2 66, exNode 3 67]"
  by (simp add: reorder_eval)

lemma ex_three: "reorderNodes [exNode 1 65, exNode 1 66, exNode 2 67] [] = [exNode 1 66, exNode 2 67]"
  by (simp add: reorder_eval)

lemma map_of_find:
  "map_of (map (\<lambda>n. (f n, n)) xs) k = find (\<lambda>m. f m = k) xs"
  by (induction xs) auto

lemma nodeById_find: "nodeById ns k = find (\<lambda>m. id_n m = k) (rev ns)"
  by (simp add: nodeById_map_of rev_map map_of_find)

lemma emitted_length:
  assumes "emitted ns (id_n ` set ns) out"
  shows "length out = card (id_n ` set ns)"
proof -
  from assms have "distinct (map id_n out)" "set (map id_n out) = id_n ` set ns"
    by (auto simp: emitted_def)
  from distinct_card[OF this(1)] this(2) show ?thesis by simp
qed

lemma emitted_permutation:
  assumes e: "emitted ns (id_n ` set ns) out" and d: "distinct (map id_n ns)"
  shows "mset out = mset ns"
proof -
  from e have dout: "distinct out" by (simp add: emitted_def distinct_map)
  from d have dns: "distinct ns" by (simp add: distinct_map)
  from e have sub: "set out \<subseteq> set ns"
    by (auto simp: emitted_def dest: nodeById_SomeD)
  have "length out = length ns"
    using emitted_length[OF e] distinct_card[OF d] by simp
  with dout dns have "card (set out) = card (set ns)" by (simp add: distinct_card)
  with sub have "set out = set ns" by (simp add: card_subset_eq)
  with dout dns show ?thesis by (simp add: set_eq_iff_mset_eq_distinct)
qed

lemma emitted_same_nodes:
  assumes e1: "emitted ns (id_n ` set ns) out1" and e2: "emitted ns (id_n ` set ns) out2"
  shows "mset out1 = mset out2"
proof -
  have rebuild: "map (\<lambda>k. the (nodeById ns k)) (map id_n out) = out"
    if "emitted ns (id_n ` set ns) out" for out
    using that by (auto simp: emitted_def intro: map_idI)
  from e1 e2 have "mset (map id_n out1) = mset (map id_n out2)"
    by (subst set_eq_iff_mset_eq_distinct[symmetric]) (auto simp: emitted_def)
  then have "mset (map (\<lambda>k. the (nodeById ns k)) (map id_n out1)) =
             mset (map (\<lambda>k. the (nodeById ns k)) (map id_n out2))"
    by (simp only: mset_map)
  with rebuild[OF e1] rebuild[OF e2] show ?thesis by simp
qed

lemma reorderNodes_same_nodes: "mset (reorderNodes ns es) = mset (reorderNodes ns es')"
  by (rule emitted_same_nodes) (rule reorderNodes_emitted)+

lemma appearsBefore_index:
  assumes "appearsBefore u v s"
  shows "\<exists>i j. i < j \<and> j < length s \<and> id_n (s ! i) = u \<and> id_n (s ! j) = v"
proof -
  let ?xs = "map id_n s" and ?P = "\<lambda>k. k \<noteq> v"
  let ?j = "length (takeWhile ?P ?xs)"
  from assms have v: "v \<in> set ?xs" and u: "u \<in> set (takeWhile ?P ?xs)"
    by (simp_all add: appearsBefore_def)
  from u obtain i where i: "i < ?j" "takeWhile ?P ?xs ! i = u"
    by (auto simp: in_set_conv_nth)
  have "takeWhile ?P ?xs \<noteq> ?xs" using v by (auto simp: takeWhile_eq_all_conv)
  moreover have "?j \<le> length ?xs" by (rule length_takeWhile_le)
  ultimately have j: "?j < length ?xs"
    by (metis le_neq_implies_less takeWhile_eq_take take_all order_refl)
  then have "\<not> ?P (?xs ! ?j)" by (rule nth_length_takeWhile)
  with j have vj: "id_n (s ! ?j) = v" by simp
  from i have "?xs ! i = u" by (simp add: takeWhile_nth)
  with i j have "id_n (s ! i) = u" by simp
  with i(1) j vj show ?thesis by auto
qed

section \<open>Lemmas about the timeline estimator\<close>

lemma timelineStep_clock:
  "fst (timelineStep es ns st i) = fst st + travelTime es ns i + stayDuration (ns ! i)"
  by (simp add: timelineStep_def Let_def)

lemma timelineStep_map:
  "snd (timelineStep es ns st i) =
     (snd st)(id_n (ns ! i) \<mapsto>
        \<lparr>arrival = formatTime (fst st + travelTime es ns i),
         departure = formatTime (fst st + travelTime es ns i + stayDuration (ns ! i))\<rparr>)"
  by (simp add: timelineStep_def Let_def)

lemma clockAfter_0: "clockAfter es ns start 0 = start"
  by (simp add: clockAfter_def)

lemma clockAfter_Suc:
  "clockAfter es ns start (Suc k) =
     clockAfter es ns start k + travelTime es ns k + stayDuration (ns ! k)"
  by (simp add: clockAfter_def timelineStep_clock)

lemma departure_after_arrival:
  "departureClock es ns start i = arrivalClock es ns start i + stayDuration (ns ! i)"
  by (simp add: departureClock_def arrivalClock_def clockAfter_Suc)

lemma timeline_entry_upto:
  assumes "distinct (map id_n ns)" "k \<le> length ns" "i < k"
  shows "snd (foldl (timelineStep es ns) (start, Map.empty) [0..<k]) (id_n (ns ! i)) =
           Some \<lparr>arrival = formatTime (arrivalClock es ns start i),
                 departure = formatTime (departureClock es ns start i)\<rparr>"
  using assms(2,3)
proof (induction k)
  case 0
  then show ?case by simp
next
  case (Suc k)
  let ?st = "foldl (timelineStep es ns) (start, Map.empty) [0..<k]"
  have fst_st: "fst ?st = clockAfter es ns start k" by (simp add: clockAfter_def)
  show ?case
  proof (cases "i = k")
    case True
    then show ?thesis
      by (simp add: timelineStep_map fst_st arrivalClock_def departure_after_arrival)
  next
    case False
    with Suc.prems have ik: "i < k" and k: "k < length ns" by simp_all
    with assms(1) have "id_n (ns ! i) \<noteq> id_n (ns ! k)"
      by (simp add: distinct_conv_nth)
    with Suc.IH ik k show ?thesis by (simp add: timelineStep_map)
  qed
qed

lemma timeline_entry:
  assumes "distinct (map id_n ns)" "i < length ns"
  shows "computeTimeline ns es start (id_n (ns ! i)) =
           Some \<lparr>arrival = formatTime (arrivalClock es ns start i),
                 departure = formatTime (departureClock es ns start i)\<rparr>"
  unfolding computeTimeline_def using assms by (intro timeline_entry_upto) simp_all

lemmas parse_eval =
  parseDurationToMinutes_def parseDurationWith_def hourMarker_def minMarker_def
  digitRun_def isDigit_def startsWith_def allDigits_def parseFloat_def parseInt_def

lemma parse_defaultStay: "parseDurationToMinutes (Some defaultStay) = 30"
  by (simp add: defaultStay_def parse_eval)

lemma stayDuration_cases:
  "stayDuration node =
     (case estimatedStay node of
        None \<Rightarrow> 30
      | Some s \<Rightarrow> if s = [] then 30 else parseDurationToMinutes (Some s))"
  by (simp add: stayDuration_def parse_defaultStay split: option.splits)

lemma formatTime_540: "formatTime 540 = [48, 57, 58, 48, 48]"
  by (simp add: formatTime_def padStart2_def digitsOf.simps Let_def)

lemma formatTime_570: "formatTime 570 = [48, 57, 58, 51, 48]"
  by (simp add: formatTime_def padStart2_def digitsOf.simps Let_def)

lemma ex_single: "reorderNodes [n] [] = [n]"
  by (simp add: reorderNodes_def buildGraph_def initDegree_def rootQueue_def getDeg_def
      reorderLoop.simps nextId_def emit_def nodeById_def neighbors_def)

lemma parse_unparsable:
  assumes "matchHour hourMarker s = None" "matchMin minMarker s = None" "\<not> allDigits s"
  shows "parseDurationToMinutes (Some s) = 0"
  using assms by (simp add: parseDurationToMinutes_def parseDurationWith_def)

lemma parse_abc: "parseDurationToMinutes (Some [97, 98, 99]) = 0"
  by (simp add: parse_eval)

lemma parse_ten_minutes: "parseDurationToMinutes (Some ([49, 48] @ minMarker)) = 10"
  by (simp add: parse_eval)

lemma travelTime_found:
  assumes "0 < i" "\<exists>e\<in>set es. from_e e = id_n (ns ! (i - 1)) \<and> to_e e = id_n (ns ! i)"
  shows "\<exists>e\<in>set es. from_e e = id_n (ns ! (i - 1)) \<and> to_e e = id_n (ns ! i) \<and>
           travelTime es ns i = parseDurationToMinutes (Some (duration e))"
proof -
  let ?P = "\<lambda>e. from_e e = id_n (ns ! (i - 1)) \<and> to_e e = id_n (ns ! i)"
  from assms(2) obtain e where e: "find ?P es = Some e"
    by (cases "find ?P es") (auto simp: find_None_iff)
  then have "e \<in> set es" "?P e" by (auto simp: find_Some_iff)
  moreover from e assms(1) have "travelTime es ns i = parseDurationToMinutes (Some (duration e))"
    by (simp add: travelTime_def Let_def)
  ultimately show ?thesis by blast
qed

lemma travelTime_missing:
  assumes "0 < i" "\<not> (\<exists>e\<in>set es. from_e e = id_n (ns ! (i - 1)) \<and> to_e e = id_n (ns ! i))"
  shows "travelTime es ns i = 15"
proof -
  from assms(2) have "find (\<lambda>e. from_e e = id_n (ns ! (i - 1)) \<and> to_e e = id_n (ns ! i)) es = None"
    by (simp add: find_None_iff)
  with assms(1) show ?thesis by (simp add: travelTime_def Let_def)
qed

lemma timeline_step_entry:
  assumes "distinct (map id_n ns)" "i < length ns"
  shows "computeTimeline ns es start (id_n (ns ! i)) =
           Some \<lparr>arrival = formatTime (clockAfter es ns start i + travelTime es ns i),
                 departure = formatTime (clockAfter es ns start (Suc i))\<rparr>"
  using timeline_entry[OF assms, of es start]
  by (simp add: arrivalClock_def departureClock_def)

lemma reorderNodes_distinct_ids: "distinct (map id_n (reorderNodes ns es))"
  using reorderNodes_emitted[of ns es] by (simp add: emitted_def)

lemma nodeTimeline_Some:
  "nodeTimeline (Some plan) =
     computeTimeline (reorderNodes (nodes plan) (edges plan)) (edges plan) (9 * 60)"
  by (simp add: nodeTimeline_def)

lemma ex_fan_order:
  "reorderNodes [exNode 1 65, exNode 2 66, exNode 3 67] [exEdge 1 2 d, exEdge 1 3 d'] =
     [exNode 1 65, exNode 2 66, exNode 3 67]"
  by (simp add: reorder_eval)

lemma ex_plan_order:
  "reorderNodes (nodes exPlan) (edges exPlan) = [exNode 1 65, exNode 2 66, exNode 3 67]"
  by (simp only: exPlan_def RoutePlan.simps ex_fan_order)

lemma formatTime_580: "formatTime 580 = [48, 57, 58, 52, 48]"
  by (simp add: formatTime_def padStart2_def digitsOf.simps Let_def)

lemma formatTime_610: "formatTime 610 = [49, 48, 58, 49, 48]"
  by (simp add: formatTime_def padStart2_def digitsOf.simps Let_def)

lemma formatTime_625: "formatTime 625 = [49, 48, 58, 50, 53]"
  by (simp add: formatTime_def padStart2_def digitsOf.simps Let_def)

lemma formatTime_655: "formatTime 655 = [49, 48, 58, 53, 53]"
  by (simp add: formatTime_def padStart2_def digitsOf.simps Let_def)

section \<open>Lemmas about the spatial clusterer\<close>



lemma near_iff:
  "zoneDist a b < CLUSTER_THRESHOLD \<longleftrightarrow>
     (fst (coordinates a) - fst (coordinates b))\<^sup>2 +
     (snd (coordinates a) - snd (coordinates b))\<^sup>2 < 64"
proof -
  have "sqrt 64 = 8" using real_sqrt_abs[of 8] by simp
  then have "\<And>x. sqrt x < 8 \<longleftrightarrow> x < 64" by (metis real_sqrt_less_iff)
  then show ?thesis by (simp add: zoneDist_def CLUSTER_THRESHOLD_def)
qed

lemma findNeighbors_filter:
  "i \<le> length zs \<Longrightarrow>
   findNeighbors current i zs ms =
     (filter (\<lambda>other. \<not> near current other) (take i zs) @ drop i zs,
      ms @ rev (filter (near current) (take i zs)))"
proof (induction i arbitrary: zs ms)
  case 0
  show ?case by simp
next
  case (Suc i)
  then have lt: "i < length zs" by simp
  have tk: "take (Suc i) zs = take i zs @ [zs ! i]" using lt by (rule take_Suc_conv_app_nth)
  have dr: "drop i zs = zs ! i # drop (Suc i) zs" using lt by (simp add: Cons_nth_drop_Suc)
  show ?case
  proof (cases "near current (zs ! i)")
    case True
    let ?zs' = "take i zs @ drop (Suc i) zs"
    from lt have len: "i \<le> length ?zs'" by simp
    from lt have t': "take i ?zs' = take i zs" and d': "drop i ?zs' = drop (Suc i) zs"
      by simp_all
    from True have "findNeighbors current (Suc i) zs ms =
        findNeighbors current i ?zs' (ms @ [zs ! i])"
      by (simp add: near_def Let_def)
    also have "\<dots> = (filter (\<lambda>other. \<not> near current other) (take i ?zs') @ drop i ?zs',
        (ms @ [zs ! i]) @ rev (filter (near current) (take i ?zs')))"
      using len by (rule Suc.IH)
    finally have fin: "findNeighbors current (Suc i) zs ms =
        (filter (\<lambda>other. \<not> near current other) (take i ?zs') @ drop i ?zs',
         (ms @ [zs ! i]) @ rev (filter (near current) (take i ?zs')))" .
    show ?thesis unfolding fin t' d' using True by (simp add: tk)
  next
    case False
    from lt have len: "i \<le> length zs" by simp
    from False have "findNeighbors current (Suc i) zs ms = findNeighbors current i zs ms"
      by (simp add: near_def Let_def)
    also have "\<dots> = (filter (\<lambda>other. \<not> near current other) (take i zs) @ drop i zs,
        ms @ rev (filter (near current) (take i zs)))"
      using len by (rule Suc.IH)
    finally have fin: "findNeighbors current (Suc i) zs ms =
        (filter (\<lambda>other. \<not> near current other) (take i zs) @ drop i zs,
         ms @ rev (filter (near current) (take i zs)))" .
    show ?thesis unfolding fin using False by (simp add: tk dr)
  qed
qed

lemma mapItemsLoop_Nil: "mapItemsLoop [] items = items"
  by (simp add: mapItemsLoop.simps)

lemma mapItemsLoop_snoc:
  "mapItemsLoop (zs @ [z]) items =
     mapItemsLoop (filter (\<lambda>other. \<not> near z other) zs)
       (items @ [makeItem z (z # rev (filter (near z) zs))])"
  by (subst mapItemsLoop.simps) (simp add: findNeighbors_filter Let_def)

lemma members_makeItem: "ms \<noteq> [] \<Longrightarrow> members (makeItem current ms) = ms"
  by (cases ms) (auto simp: makeItem_def Let_def)

lemma mapItemsLoop_members:
  "mset (concat (map members (mapItemsLoop zs items))) =
     mset (concat (map members items)) + mset zs"
proof (induction "length zs" arbitrary: zs items rule: less_induct)
  case less
  show ?case
  proof (cases zs rule: rev_cases)
    case Nil
    then show ?thesis by (simp add: mapItemsLoop_Nil)
  next
    case (snoc ys z)
    let ?rest = "filter (\<lambda>other. \<not> near z other) ys"
    let ?ms = "z # rev (filter (near z) ys)"
    have "length ?rest < length zs" using snoc by (simp add: less_Suc_eq_le)
    from less[OF this, of "items @ [makeItem z ?ms]"]
    have "mset (concat (map members (mapItemsLoop zs items))) =
            mset (concat (map members items)) + (mset ?ms + mset ?rest)"
      by (simp add: snoc mapItemsLoop_snoc members_makeItem)
    also have "mset (concat (map members items)) + (mset ?ms + mset ?rest) =
            mset (concat (map members items)) + mset zs"
      by (simp add: snoc)
    finally show ?thesis .
  qed
qed

lemma ex_cluster:
  "mapItems [exZone 97 0 0, exZone 98 1 1, exZone 99 20 20] =
     [Single (exZone 99 20 20),
      Cluster [exZone 98 1 1, exZone 97 0 0] (1 / 2) (1 / 2)
        [99, 108, 117, 115, 116, 101, 114, 45, 98, 45, 50]]"
  by (simp add: mapItems_def mapItemsLoop.simps near_iff makeItem_def clusterId_def
      digitsOf.simps exZone_def)

section \<open>Properties of the graph orderer\<close>

text \<open>
  C1, as stated, fails: two different nodes that share an id are not both returned.
\<close>

theorem reorderNodes_duplicate_id_counterexample:
  "reorderNodes [exNode 1 65, exNode 1 66] [] = [exNode 1 66] \<and>
   mset (reorderNodes [exNode 1 65, exNode 1 66] []) \<noteq> mset [exNode 1 65, exNode 1 66]"
  unfolding ex_duplicate_ids by simp

text \<open>
  C1, amended: for every list of nodes with pairwise distinct ids and every list of edges,
  well-formed or not, \<open>reorderNodes\<close> returns a permutation of the input nodes: every
  node exactly once, without duplicates or omissions.
\<close>

theorem reorderNodes_permutation:
  "distinct (map id_n ns) \<Longrightarrow>
   mset (reorderNodes ns es) = mset ns \<and> distinct (reorderNodes ns es)"
proof -
  assume d: "distinct (map id_n ns)"
  have e: "emitted ns (id_n ` set ns) (reorderNodes ns es)" by (rule reorderNodes_emitted)
  then have "distinct (reorderNodes ns es)" by (simp add: emitted_def distinct_map)
  with emitted_permutation[OF e d] show ?thesis by simp
qed

theorem reorderNodes_permutation_witness:
  "distinct (map id_n [exNode 2 65, exNode 1 66]) \<and>
   mset (reorderNodes [exNode 2 65, exNode 1 66] [exEdge 99 2 [], exEdge 1 2 [], exEdge 2 1 []])
     = mset [exNode 2 65, exNode 1 66]"
proof -
  have d: "distinct (map id_n [exNode 2 65, exNode 1 66])" by (simp add: exNode_def)
  from reorderNodes_permutation[OF d] d show ?thesis by blast
qed

text \<open>
  C2: when every edge joins two node ids and the edges have no cycle, every edge is
  respected by the output of \<open>reorderNodes\<close>: the source of an edge appears strictly
  before its target, that is at a smaller index.  A single source is not needed for this.
\<close>

theorem reorderNodes_respects_edges:
  assumes dag: "validDag ns es" and e: "e \<in> set es"
  shows "appearsBefore (from_e e) (to_e e) (reorderNodes ns es) \<and>
         (\<exists>i j. i < j \<and> j < length (reorderNodes ns es) \<and>
            id_n (reorderNodes ns es ! i) = from_e e \<and>
            id_n (reorderNodes ns es ! j) = to_e e)"
proof -
  have before: "appearsBefore (from_e e) (to_e e) (reorderNodes ns es)"
    unfolding reorderNodes_def Let_def
  proof (rule reorderLoop_rule[where I = "dagInv ns es"])
    show "dagInv ns es (snd (buildGraph ns es)) {} (rootQueue ns (snd (buildGraph ns es))) []"
      by (rule dagInv_init)
  next
    fix deg vis q s c rest
    assume "dagInv ns es deg vis q s" "nextId ns vis q = Some (c, rest)" "c \<in> vis"
    with dag show "dagInv ns es deg vis rest s" by (rule dagInv_skip)
  next
    fix deg vis q s c rest
    assume "dagInv ns es deg vis q s" "nextId ns vis q = Some (c, rest)" "c \<notin> vis"
    with dag show "dagInv ns es (visitDeg ns es deg rest c) (insert c vis)
       (visitQueue ns es deg rest c) (emit ns c s)" by (rule dagInv_visit)
  next
    fix deg vis q s
    assume inv: "dagInv ns es deg vis q s" and x: "\<not> length s < length ns \<or> nextId ns vis q = None"
    from inv have E: "emitted ns vis s" by (simp add: dagInv_def)
    from emitted_exit[OF E x] E have "id_n ` set ns \<subseteq> vis" by (auto simp: emitted_def)
    moreover from dag e have "to_e e \<in> id_n ` set ns" by (simp add: validDag_def)
    ultimately have "to_e e \<in> vis" by auto
    with inv e show "appearsBefore (from_e e) (to_e e) s" by (simp add: dagInv_def)
  qed
  from before appearsBefore_index[OF before] show ?thesis by blast
qed

theorem reorderNodes_respects_edges_witness:
  "validDag [exNode 3 67, exNode 2 66, exNode 1 65] [exEdge 1 2 [], exEdge 2 3 [], exEdge 1 3 []] \<and>
   exEdge 1 3 [] \<in> set [exEdge 1 2 [], exEdge 2 3 [], exEdge 1 3 []] \<and>
   appearsBefore 1 3
     (reorderNodes [exNode 3 67, exNode 2 66, exNode 1 65] [exEdge 1 2 [], exEdge 2 3 [], exEdge 1 3 []])"
proof -
  let ?ns = "[exNode 3 67, exNode 2 66, exNode 1 65]"
  let ?es = "[exEdge 1 2 [], exEdge 2 3 [], exEdge 1 3 []]"
  have "acyclic (edgeRel ?es)"
    by (rule acyclicI_order[where f = uminus]) (auto simp: edgeRel_def exEdge_def)
  then have dag: "validDag ?ns ?es" by (simp add: validDag_def exNode_def exEdge_def)
  have mem: "exEdge 1 3 [] \<in> set ?es" by simp
  from reorderNodes_respects_edges[OF dag mem] have "appearsBefore (from_e (exEdge 1 3 []))
      (to_e (exEdge 1 3 [])) (reorderNodes ?ns ?es)" by blast
  with dag show ?thesis by (simp add: exEdge_def)
qed


text \<open>
  C4, as stated, fails: an edge from the absent id 99 to node 2 is not skipped.  It counts
  for the in-degree of node 2, so node 2 is no start node and comes after node 1; without
  the edge the two nodes keep their input order.
\<close>

theorem reorderNodes_dangling_edge_counterexample:
  "reorderNodes [exNode 2 65, exNode 1 66] [exEdge 99 2 []] = [exNode 1 66, exNode 2 65] \<and>
   reorderNodes [exNode 2 65, exNode 1 66]
     (edgesWithPresentEndpoints [exNode 2 65, exNode 1 66] [exEdge 99 2 []])
     = [exNode 2 65, exNode 1 66]"
proof -
  have "edgesWithPresentEndpoints [exNode 2 65, exNode 1 66] [exEdge 99 2 []] = []"
    by (simp add: edgesWithPresentEndpoints_def exNode_def exEdge_def)
  then show ?thesis by (simp add: ex_dangling ex_no_edges)
qed

text \<open>
  C4, amended: when no edge leads from an absent id to a node, the edges whose endpoints
  are not both node ids are skipped: \<open>reorderNodes\<close> returns the same sequence with
  them as without them.  (For every edge list the same nodes are returned,
  \<open>reorderNodes_same_nodes\<close>; an edge from an absent id to a node can change their
  order, as in the counterexample.)
\<close>

theorem reorderNodes_skips_dangling:
  assumes H: "noEdgeFromAbsent ns es"
  shows "reorderNodes ns es = reorderNodes ns (edgesWithPresentEndpoints ns es)"
proof -
  let ?es' = "edgesWithPresentEndpoints ns es"
  let ?q = "rootQueue ns (snd (buildGraph ns es))"
  have roots: "filter (\<lambda>x. x \<in> id_n ` set ns) ?q = ?q"
    by (auto simp: rootQueue_def filter_id_conv)
  have "reorderLoop ns ?es' (snd (buildGraph ns ?es')) ({} \<inter> id_n ` set ns)
          (filter (\<lambda>x. x \<in> id_n ` set ns) ?q) [] =
        reorderLoop ns es (snd (buildGraph ns es)) {} ?q []"
    using H by (intro reorderLoop_present) (simp_all add: present_deg[OF H])
  then show ?thesis
    by (simp add: reorderNodes_def Let_def roots rootQueue_present[OF H])
qed

theorem reorderNodes_skips_dangling_witness:
  "noEdgeFromAbsent [exNode 2 65, exNode 1 66] [exEdge 1 99 [], exEdge 98 97 [], exEdge 1 2 []] \<and>
   edgesWithPresentEndpoints [exNode 2 65, exNode 1 66]
     [exEdge 1 99 [], exEdge 98 97 [], exEdge 1 2 []] = [exEdge 1 2 []] \<and>
   reorderNodes [exNode 2 65, exNode 1 66] [exEdge 1 99 [], exEdge 98 97 [], exEdge 1 2 []] =
     reorderNodes [exNode 2 65, exNode 1 66] [exEdge 1 2 []]"
proof -
  let ?ns = "[exNode 2 65, exNode 1 66]"
  let ?es = "[exEdge 1 99 [], exEdge 98 97 [], exEdge 1 2 []]"
  have H: "noEdgeFromAbsent ?ns ?es"
    by (simp add: noEdgeFromAbsent_def exNode_def exEdge_def)
  have f: "edgesWithPresentEndpoints ?ns ?es = [exEdge 1 2 []]"
    by (simp add: edgesWithPresentEndpoints_def exNode_def exEdge_def)
  from reorderNodes_skips_dangling[OF H] H f show ?thesis by simp
qed

text \<open>
  C9: \<open>reorderNodes\<close> is idempotent: its output, given back as the node order with
  the same edges, is returned unchanged.
\<close>

theorem reorderNodes_idempotent:
  "reorderNodes (reorderNodes ns es) es = reorderNodes ns es"
proof -
  let ?out = "reorderNodes ns es"
  let ?deg = "snd (buildGraph ns es)"
  have Eo: "emitted ns (id_n ` set ns) ?out" by (rule reorderNodes_emitted)
  then have ids: "id_n ` set ?out = id_n ` set ns" by (auto simp: emitted_def)
  have bg: "buildGraph ?out es = buildGraph ns es" using ids by (rule buildGraph_cong)
  have q2: "rootQueue ?out ?deg = dedupFrom {} (rootQueue ns ?deg)"
    by (simp add: rootQueue_eq reorderNodes_roots_first)
  have "reorderLoop ns es ?deg {} (rootQueue ns ?deg) [] = ?out"
    by (simp add: reorderNodes_def Let_def)
  moreover have "emitted ns {} []" by (simp add: emitted_def)
  moreover have "qsim {} (rootQueue ns ?deg) (rootQueue ?out ?deg)"
    unfolding q2 by (rule qsim_dedupFrom)
  ultimately have "reorderLoop ?out es ?deg {} (rootQueue ?out ?deg) [] = ?out"
    by (rule reorderLoop_sim)
  then show ?thesis
    by (subst (1) reorderNodes_def) (simp add: Let_def bg)
qed


theorem reorderNodes_idempotent_witness:
  "reorderNodes
     (reorderNodes [exNode 1 65, exNode 2 66] [exEdge 1 2 [], exEdge 2 1 []])
     [exEdge 1 2 [], exEdge 2 1 []]
   = [exNode 1 65, exNode 2 66]"
  using reorderNodes_idempotent[of "[exNode 1 65, exNode 2 66]" "[exEdge 1 2 [], exEdge 2 1 []]"]
  by (simp add: ex_cycle)

text \<open>
  C10: the output of \<open>reorderNodes\<close> holds exactly one node per distinct id of the
  input, namely the last node of the input list with that id; its length is the number of
  distinct ids, which is the length of the input exactly when the ids are distinct.
\<close>

theorem reorderNodes_one_per_id:
  "distinct (map id_n (reorderNodes ns es)) \<and>
   id_n ` set (reorderNodes ns es) = id_n ` set ns \<and>
   (\<forall>n\<in>set (reorderNodes ns es). find (\<lambda>m. id_n m = id_n n) (rev ns) = Some n) \<and>
   length (reorderNodes ns es) = card (id_n ` set ns) \<and>
   (length (reorderNodes ns es) = length ns \<longleftrightarrow> distinct (map id_n ns))"
proof -
  have e: "emitted ns (id_n ` set ns) (reorderNodes ns es)" by (rule reorderNodes_emitted)
  have len: "length (reorderNodes ns es) = card (id_n ` set ns)" using e by (rule emitted_length)
  have "card (set (map id_n ns)) = length (map id_n ns) \<longleftrightarrow> distinct (map id_n ns)"
    using card_distinct[of "map id_n ns"] distinct_card[of "map id_n ns"] by blast
  with len have "length (reorderNodes ns es) = length ns \<longleftrightarrow> distinct (map id_n ns)" by simp
  with e len show ?thesis by (simp add: emitted_def nodeById_find)
qed

theorem reorderNodes_one_per_id_witness:
  "exNode 1 66 \<in> set (reorderNodes [exNode 1 65, exNode 1 66, exNode 2 67] []) \<and>
   find (\<lambda>m. id_n m = id_n (exNode 1 66)) (rev [exNode 1 65, exNode 1 66, exNode 2 67])
     = Some (exNode 1 66) \<and>
   length (reorderNodes [exNode 1 65, exNode 1 66, exNode 2 67] []) = 2"
proof -
  let ?ns = "[exNode 1 65, exNode 1 66, exNode 2 67]"
  have mem: "exNode 1 66 \<in> set (reorderNodes ?ns [])" by (simp add: ex_three)
  have "card (id_n ` set ?ns) = 2" by (simp add: exNode_def)
  with reorderNodes_one_per_id[of ?ns "[]"] mem show ?thesis by auto
qed

section \<open>Properties of the timeline estimator\<close>

text \<open>
  C5, as stated, fails for a stay string that is present but unparsable: the default is
  taken only for an absent or empty string, and the parser returns 0 for \<open>abc\<close>, so the
  node departs when it arrives.
\<close>

theorem unparsable_stay_counterexample:
  "stayDuration ((exNode 1 65)\<lparr>estimatedStay := Some [97, 98, 99]\<rparr>) = 0 \<and>
   computeTimeline [(exNode 1 65)\<lparr>estimatedStay := Some [97, 98, 99]\<rparr>] [] 540 1
     = Some \<lparr>arrival = [48, 57, 58, 48, 48], departure = [48, 57, 58, 48, 48]\<rparr>"
proof -
  let ?n = "(exNode 1 65)\<lparr>estimatedStay := Some [97, 98, 99]\<rparr>"
  have s: "stayDuration ?n = 0" by (simp add: stayDuration_cases parse_abc)
  have "computeTimeline [?n] [] 540 (id_n ([?n] ! 0)) =
          Some \<lparr>arrival = formatTime (arrivalClock [] [?n] 540 0),
                departure = formatTime (departureClock [] [?n] 540 0)\<rparr>"
    by (rule timeline_entry) simp_all
  moreover have "arrivalClock [] [?n] 540 0 = 540"
    by (simp add: arrivalClock_def clockAfter_0 travelTime_def)
  moreover have "departureClock [] [?n] 540 0 = 540"
    using s by (simp add: departure_after_arrival arrivalClock_def clockAfter_0 travelTime_def)
  moreover have "id_n ([?n] ! 0) = 1" by (simp add: exNode_def)
  ultimately show ?thesis using s by (simp add: formatTime_540)
qed

text \<open>
  C5, amended: a node whose estimated-stay string is absent or empty departs 30 minutes
  after it arrives (the default stay); a node with any other stay string departs after
  the minutes the parser reads from that string (0 when it is unparsable).  With distinct
  ids the recorded labels are the formatted arrival and departure clocks.  The witness is
  the example of the claim: start 540, one node, no edges, no stay, arrival 09:00 and
  departure 09:30.
\<close>

theorem default_stay:
  "i < length ns \<Longrightarrow> distinct (map id_n ns) \<Longrightarrow>
   departureClock es ns start i =
     arrivalClock es ns start i +
       (case estimatedStay (ns ! i) of
          None \<Rightarrow> 30
        | Some s \<Rightarrow> if s = [] then 30 else parseDurationToMinutes (Some s)) \<and>
   computeTimeline ns es start (id_n (ns ! i)) =
     Some \<lparr>arrival = formatTime (arrivalClock es ns start i),
           departure = formatTime (departureClock es ns start i)\<rparr>"
proof -
  assume i: "i < length ns" and d: "distinct (map id_n ns)"
  have "departureClock es ns start i = arrivalClock es ns start i + stayDuration (ns ! i)"
    by (rule departure_after_arrival)
  with timeline_entry[OF d i] show ?thesis by (simp add: stayDuration_cases)
qed

theorem default_stay_witness:
  "(0::nat) < length [exNode 1 65] \<and> distinct (map id_n [exNode 1 65]) \<and>
   estimatedStay ([exNode 1 65] ! 0) = None \<and>
   departureClock [] [exNode 1 65] 540 0 = arrivalClock [] [exNode 1 65] 540 0 + 30 \<and>
   nodeTimeline (Some \<lparr>title = [], nodes = [exNode 1 65], edges = []\<rparr>) 1
     = Some \<lparr>arrival = [48, 57, 58, 48, 48], departure = [48, 57, 58, 51, 48]\<rparr>"
proof -
  let ?ns = "[exNode 1 65]"
  have i: "(0::nat) < length ?ns" and d: "distinct (map id_n ?ns)" by simp_all
  have st: "estimatedStay (?ns ! 0) = None" by (simp add: exNode_def)
  have arr: "arrivalClock [] ?ns 540 0 = 540"
    by (simp add: arrivalClock_def clockAfter_0 travelTime_def)
  from default_stay[OF i d, of "[]" 540] st arr
  have dep: "departureClock [] ?ns 540 0 = 570"
    and entry: "computeTimeline ?ns [] 540 (id_n (?ns ! 0)) =
      Some \<lparr>arrival = formatTime 540, departure = formatTime (departureClock [] ?ns 540 0)\<rparr>"
    by simp_all
  have "id_n (?ns ! 0) = 1" by (simp add: exNode_def)
  with entry dep have "computeTimeline ?ns [] 540 1 =
      Some \<lparr>arrival = [48, 57, 58, 48, 48], departure = [48, 57, 58, 51, 48]\<rparr>"
    by (simp add: formatTime_540 formatTime_570)
  then have "nodeTimeline (Some \<lparr>title = [], nodes = ?ns, edges = []\<rparr>) 1 =
      Some \<lparr>arrival = [48, 57, 58, 48, 48], departure = [48, 57, 58, 51, 48]\<rparr>"
    by (simp add: nodeTimeline_def ex_single)
  with i d st arr dep show ?thesis by simp
qed

text \<open>
  C6: in the timeline of a plan, over the ordered node sequence \<open>sn\<close> that
  \<open>reorderNodes\<close> returns, with \<open>clockAfter \<dots> k\<close> the value of \<open>currentMinutes\<close>
  after the first \<open>k\<close> nodes.  For the first node the recorded arrival is the start and
  the clock advances by the stay only.  For a later node, when the edge list has an edge
  from the previous node to it, the recorded arrival is the clock after the previous
  node plus the parsed duration of such an edge, and the clock advances by that duration
  and the stay; when there is no such edge, the same holds with exactly 15 minutes.
\<close>

theorem travel_advance:
  assumes sn: "sn = reorderNodes (nodes plan) (edges plan)" and i: "i < length sn"
  shows
   "(i = 0 \<longrightarrow>
       nodeTimeline (Some plan) (id_n (sn ! i)) =
         Some \<lparr>arrival = formatTime (9 * 60),
               departure = formatTime (clockAfter (edges plan) sn (9 * 60) (Suc i))\<rparr> \<and>
       clockAfter (edges plan) sn (9 * 60) (Suc i) = 9 * 60 + stayDuration (sn ! i)) \<and>
    (0 < i \<longrightarrow>
       (\<exists>e\<in>set (edges plan). from_e e = id_n (sn ! (i - 1)) \<and> to_e e = id_n (sn ! i)) \<longrightarrow>
       (\<exists>e\<in>set (edges plan). from_e e = id_n (sn ! (i - 1)) \<and> to_e e = id_n (sn ! i) \<and>
          nodeTimeline (Some plan) (id_n (sn ! i)) =
            Some \<lparr>arrival = formatTime (clockAfter (edges plan) sn (9 * 60) i +
                                         parseDurationToMinutes (Some (duration e))),
                  departure = formatTime (clockAfter (edges plan) sn (9 * 60) (Suc i))\<rparr> \<and>
          clockAfter (edges plan) sn (9 * 60) (Suc i) =
            clockAfter (edges plan) sn (9 * 60) i +
              parseDurationToMinutes (Some (duration e)) + stayDuration (sn ! i))) \<and>
    (0 < i \<longrightarrow>
       \<not> (\<exists>e\<in>set (edges plan). from_e e = id_n (sn ! (i - 1)) \<and> to_e e = id_n (sn ! i)) \<longrightarrow>
       nodeTimeline (Some plan) (id_n (sn ! i)) =
         Some \<lparr>arrival = formatTime (clockAfter (edges plan) sn (9 * 60) i + 15),
               departure = formatTime (clockAfter (edges plan) sn (9 * 60) (Suc i))\<rparr> \<and>
       clockAfter (edges plan) sn (9 * 60) (Suc i) =
         clockAfter (edges plan) sn (9 * 60) i + 15 + stayDuration (sn ! i))"
proof -
  let ?es = "edges plan"
  have d: "distinct (map id_n sn)" unfolding sn by (rule reorderNodes_distinct_ids)
  have entry: "nodeTimeline (Some plan) (id_n (sn ! i)) =
      Some \<lparr>arrival = formatTime (clockAfter ?es sn (9 * 60) i + travelTime ?es sn i),
            departure = formatTime (clockAfter ?es sn (9 * 60) (Suc i))\<rparr>"
    using timeline_step_entry[OF d i, of ?es "9 * 60"] by (simp add: nodeTimeline_Some sn)
  have clock: "clockAfter ?es sn (9 * 60) (Suc i) =
      clockAfter ?es sn (9 * 60) i + travelTime ?es sn i + stayDuration (sn ! i)"
    by (rule clockAfter_Suc)
  show ?thesis
  proof (intro conjI impI)
    assume "i = 0"
    then have "travelTime ?es sn i = 0" "clockAfter ?es sn (9 * 60) i = 9 * 60"
      by (simp_all add: travelTime_def clockAfter_0)
    with entry clock show
      "nodeTimeline (Some plan) (id_n (sn ! i)) =
         Some \<lparr>arrival = formatTime (9 * 60),
               departure = formatTime (clockAfter ?es sn (9 * 60) (Suc i))\<rparr>"
      "clockAfter ?es sn (9 * 60) (Suc i) = 9 * 60 + stayDuration (sn ! i)"
      by simp_all
  next
    assume pos: "0 < i"
      and ex: "\<exists>e\<in>set ?es. from_e e = id_n (sn ! (i - 1)) \<and> to_e e = id_n (sn ! i)"
    from travelTime_found[OF pos ex] obtain e where
      e: "e \<in> set ?es" "from_e e = id_n (sn ! (i - 1))" "to_e e = id_n (sn ! i)"
      and t: "travelTime ?es sn i = parseDurationToMinutes (Some (duration e))"
      by blast
    from entry clock t have
      "nodeTimeline (Some plan) (id_n (sn ! i)) =
         Some \<lparr>arrival = formatTime (clockAfter ?es sn (9 * 60) i +
                                      parseDurationToMinutes (Some (duration e))),
               departure = formatTime (clockAfter ?es sn (9 * 60) (Suc i))\<rparr> \<and>
       clockAfter ?es sn (9 * 60) (Suc i) =
         clockAfter ?es sn (9 * 60) i + parseDurationToMinutes (Some (duration e)) +
           stayDuration (sn ! i)"
      by simp
    with e show "\<exists>e\<in>set ?es. from_e e = id_n (sn ! (i - 1)) \<and> to_e e = id_n (sn ! i) \<and>
          nodeTimeline (Some plan) (id_n (sn ! i)) =
            Some \<lparr>arrival = formatTime (clockAfter ?es sn (9 * 60) i +
                                         parseDurationToMinutes (Some (duration e))),
                  departure = formatTime (clockAfter ?es sn (9 * 60) (Suc i))\<rparr> \<and>
          clockAfter ?es sn (9 * 60) (Suc i) =
            clockAfter ?es sn (9 * 60) i +
              parseDurationToMinutes (Some (duration e)) + stayDuration (sn ! i)"
      by blast
  next
    assume pos: "0 < i"
      and nex: "\<not> (\<exists>e\<in>set ?es. from_e e = id_n (sn ! (i - 1)) \<and> to_e e = id_n (sn ! i))"
    from travelTime_missing[OF pos nex] have t: "travelTime ?es sn i = 15" .
    with entry clock show
      "nodeTimeline (Some plan) (id_n (sn ! i)) =
         Some \<lparr>arrival = formatTime (clockAfter ?es sn (9 * 60) i + 15),
               departure = formatTime (clockAfter ?es sn (9 * 60) (Suc i))\<rparr>"
      "clockAfter ?es sn (9 * 60) (Suc i) =
         clockAfter ?es sn (9 * 60) i + 15 + stayDuration (sn ! i)"
      by simp_all
  qed
qed

theorem travel_advance_witness:
  "reorderNodes (nodes exPlan) (edges exPlan) = [exNode 1 65, exNode 2 66, exNode 3 67] \<and>
   nodeTimeline (Some exPlan) 1 =
     Some \<lparr>arrival = [48, 57, 58, 48, 48], departure = [48, 57, 58, 51, 48]\<rparr> \<and>
   nodeTimeline (Some exPlan) 2 =
     Some \<lparr>arrival = [48, 57, 58, 52, 48], departure = [49, 48, 58, 49, 48]\<rparr> \<and>
   nodeTimeline (Some exPlan) 3 =
     Some \<lparr>arrival = [49, 48, 58, 50, 53], departure = [49, 48, 58, 53, 53]\<rparr>"
proof -
  define sn where "sn = [exNode 1 65, exNode 2 66, exNode 3 67]"
  define es where "es = edges exPlan"
  define c where "c = clockAfter es sn (9 * 60)"
  have sn: "sn = reorderNodes (nodes exPlan) (edges exPlan)"
    by (simp add: sn_def ex_plan_order)
  have len: "0 < length sn" "Suc 0 < length sn" "Suc (Suc 0) < length sn"
    by (simp_all add: sn_def)
  have stay: "stayDuration (sn ! 0) = 30" "stayDuration (sn ! Suc 0) = 30"
    "stayDuration (sn ! Suc (Suc 0)) = 30"
    by (simp_all add: sn_def stayDuration_cases exNode_def)
  have ids: "id_n (sn ! 0) = 1" "id_n (sn ! Suc 0) = 2" "id_n (sn ! Suc (Suc 0)) = 3"
    by (simp_all add: sn_def exNode_def)
  have mem: "set es = {exEdge 1 2 (49 # 48 # minMarker), exEdge 1 3 []}"
    by (simp add: es_def exPlan_def)
  have ends: "from_e (exEdge a b d) = a" "to_e (exEdge a b d) = b" "duration (exEdge a b d) = d"
    for a b d by (simp_all add: exEdge_def)
  \<comment> \<open>the first node\<close>
  note T0 = travel_advance[OF sn len(1), folded es_def, folded c_def]
  from T0 have e0: "nodeTimeline (Some exPlan) (id_n (sn ! 0)) =
      Some \<lparr>arrival = formatTime (9 * 60), departure = formatTime (c (Suc 0))\<rparr>"
    and c1: "c (Suc 0) = 9 * 60 + stayDuration (sn ! 0)"
    by blast+
  from c1 stay have c1': "c (Suc 0) = 570" by simp
  \<comment> \<open>node 2 follows node 1 along the edge of 10 minutes\<close>
  note T1 = travel_advance[OF sn len(2), folded es_def, folded c_def]
  have ex1: "\<exists>e\<in>set es. from_e e = id_n (sn ! (Suc 0 - 1)) \<and> to_e e = id_n (sn ! Suc 0)"
    by (simp add: mem ids ends)
  have p1: "0 < Suc 0" by simp
  from T1[THEN conjunct2, THEN conjunct1, THEN mp, OF p1, THEN mp, OF ex1] obtain e where
    e: "e \<in> set es" "to_e e = id_n (sn ! Suc 0)"
    and e1: "nodeTimeline (Some exPlan) (id_n (sn ! Suc 0)) =
      Some \<lparr>arrival = formatTime (c (Suc 0) + parseDurationToMinutes (Some (duration e))),
            departure = formatTime (c (Suc (Suc 0)))\<rparr>"
    and c2: "c (Suc (Suc 0)) =
      c (Suc 0) + parseDurationToMinutes (Some (duration e)) + stayDuration (sn ! Suc 0)"
    by blast
  from e have "e = exEdge 1 2 (49 # 48 # minMarker)"
    by (auto simp: mem ids ends)
  then have dur: "parseDurationToMinutes (Some (duration e)) = 10"
    using parse_ten_minutes by (simp add: ends)
  from c2 dur stay c1' have c2': "c (Suc (Suc 0)) = 610" by simp
  \<comment> \<open>node 3 follows node 2 without an edge\<close>
  note T2 = travel_advance[OF sn len(3), folded es_def, folded c_def]
  have nex2: "\<not> (\<exists>e\<in>set es. from_e e = id_n (sn ! (Suc (Suc 0) - 1)) \<and>
      to_e e = id_n (sn ! Suc (Suc 0)))"
    by (simp add: mem ids ends)
  have p2: "0 < Suc (Suc 0)" by simp
  from T2[THEN conjunct2, THEN conjunct2, THEN mp, OF p2, THEN mp, OF nex2]
  have e2: "nodeTimeline (Some exPlan) (id_n (sn ! Suc (Suc 0))) =
      Some \<lparr>arrival = formatTime (c (Suc (Suc 0)) + 15),
            departure = formatTime (c (Suc (Suc (Suc 0))))\<rparr>"
    and c3: "c (Suc (Suc (Suc 0))) = c (Suc (Suc 0)) + 15 + stayDuration (sn ! Suc (Suc 0))"
    by blast+
  from c3 c2' stay have c3': "c (Suc (Suc (Suc 0))) = 655" by simp
  from e0 c1' have "nodeTimeline (Some exPlan) 1 =
      Some \<lparr>arrival = [48, 57, 58, 48, 48], departure = [48, 57, 58, 51, 48]\<rparr>"
    by (simp add: ids formatTime_540 formatTime_570)
  moreover from e1 dur c1' c2' have "nodeTimeline (Some exPlan) 2 =
      Some \<lparr>arrival = [48, 57, 58, 52, 48], departure = [49, 48, 58, 49, 48]\<rparr>"
    by (simp add: ids formatTime_580 formatTime_610)
  moreover from e2 c2' c3' have "nodeTimeline (Some exPlan) 3 =
      Some \<lparr>arrival = [49, 48, 58, 50, 53], departure = [49, 48, 58, 53, 53]\<rparr>"
    by (simp add: ids formatTime_625 formatTime_655)
  ultimately show ?thesis by (simp add: ex_plan_order)
qed

text \<open>
  C7: the unit markers in the two regular expressions of \<open>parseDurationToMinutes\<close> are
  not the hour and minute markers of the duration strings of this repository
  (U+5C0F U+65F6 and U+5206) but the mis-decoded sequences \<open>hourMarker\<close> and
  \<open>minMarker\<close>.  So the strings of the claim, 1.5 hours and 40 minutes as the route data
  writes them, match neither expression and parse to 0; with the intended markers the
  same parser gives 90 and 40.  The empty string gives 0 either way.
\<close>

theorem parseDuration_route_strings:
  "parseDurationToMinutes (Some [49, 46, 53, 0x5C0F, 0x65F6]) = 0 \<and>
   parseDurationToMinutes (Some [52, 48, 0x5206, 0x949F]) = 0 \<and>
   parseDurationToMinutes (Some []) = 0 \<and>
   parseDurationWith [0x5C0F, 0x65F6] [0x5206] (Some [49, 46, 53, 0x5C0F, 0x65F6]) = 90 \<and>
   parseDurationWith [0x5C0F, 0x65F6] [0x5206] (Some [52, 48, 0x5206, 0x949F]) = 40"
proof (intro conjI)
  show "parseDurationToMinutes (Some [49, 46, 53, 0x5C0F, 0x65F6]) = 0"
    by (simp add: parse_eval)
  show "parseDurationToMinutes (Some [52, 48, 0x5206, 0x949F]) = 0"
    by (simp add: parse_eval)
  show "parseDurationToMinutes (Some []) = 0"
    by (simp add: parse_eval)
  show "parseDurationWith [0x5C0F, 0x65F6] [0x5206] (Some [49, 46, 53, 0x5C0F, 0x65F6]) = 90"
    by (simp add: parse_eval)
  show "parseDurationWith [0x5C0F, 0x65F6] [0x5206] (Some [52, 48, 0x5206, 0x949F]) = 40"
    by (simp add: parse_eval)
qed

section \<open>Properties of the spatial clusterer\<close>

text \<open>
  C8: the clusterer partitions its input: the members of the items it returns are the
  input zones, each as often as it occurs in the input.  One round takes the last zone of
  the worklist as the seed, moves every remaining zone whose distance to the seed is
  strictly below the threshold into the seed's cluster and goes on with the others.  The
  points (0,0), (1,1), (20,20) with the threshold 8 give the singleton (20,20) and one
  cluster of the two members (1,1) and (0,0), placed at their mean.
\<close>

theorem mapItems_partition:
  "mset (concat (map members (mapItems zs))) = mset zs \<and>
   mapItemsLoop (zs @ [z]) items =
     mapItemsLoop (filter (\<lambda>other. \<not> zoneDist z other < CLUSTER_THRESHOLD) zs)
       (items @ [makeItem z (z # rev (filter (\<lambda>other. zoneDist z other < CLUSTER_THRESHOLD) zs))]) \<and>
   mapItems [exZone 97 0 0, exZone 98 1 1, exZone 99 20 20] =
     [Single (exZone 99 20 20),
      Cluster [exZone 98 1 1, exZone 97 0 0] (1 / 2) (1 / 2)
        [99, 108, 117, 115, 116, 101, 114, 45, 98, 45, 50]]"
proof (intro conjI)
  show "mset (concat (map members (mapItems zs))) = mset zs"
    by (simp add: mapItems_def mapItemsLoop_members)
  show "mapItemsLoop (zs @ [z]) items =
     mapItemsLoop (filter (\<lambda>other. \<not> zoneDist z other < CLUSTER_THRESHOLD) zs)
       (items @ [makeItem z (z # rev (filter (\<lambda>other. zoneDist z other < CLUSTER_THRESHOLD) zs))])"
    using mapItemsLoop_snoc[of zs z items] by (simp add: near_def[abs_def])
  show "mapItems [exZone 97 0 0, exZone 98 1 1, exZone 99 20 20] =
     [Single (exZone 99 20 20),
      Cluster [exZone 98 1 1, exZone 97 0 0] (1 / 2) (1 / 2)
        [99, 108, 117, 115, 116, 101, 114, 45, 98, 45, 50]]"
    by (rule ex_cluster)
qed

end
